theory Spec2Isabelle
  imports Main
begin

section \<open>The Fetcher interface and the canned fakeFetcher\<close>

text \<open>
  A Go \<^verbatim>\<open>error\<close> value is modelled by its message; \<^verbatim>\<open>nil\<close> is \<open>None\<close>.
  A Go slice may be \<^verbatim>\<open>nil\<close> (\<open>None\<close>) or hold elements; \<^verbatim>\<open>range\<close> and \<^verbatim>\<open>len\<close>
  treat a nil slice as empty (\<open>elems\<close>).
\<close>

type_synonym error = string

type_synonym 'a slice = "'a list option"

definition elems :: "'a slice \<Rightarrow> 'a list" where
  "elems xs = (case xs of None \<Rightarrow> [] | Some ys \<Rightarrow> ys)"

text \<open>
  \<^verbatim>\<open>Fetch(url string) (body string, urls []string, err error)\<close>: the three results
  as a triple. A Fetcher is modelled by the function its \<^verbatim>\<open>Fetch\<close> method computes.
\<close>

type_synonym fetch_result = "string \<times> string slice \<times> error option"

type_synonym Fetcher = "string \<Rightarrow> fetch_result"

text \<open>
  \<^verbatim>\<open>type fakeResult struct { body string; urls []string }\<close>, written positionally
  as the source's literals are, and \<^verbatim>\<open>type fakeFetcher map[string]*fakeResult\<close>.
  Every entry of the source is a non-nil \<^verbatim>\<open>&fakeResult{...}\<close>, so a map value is
  modelled by the struct it points to.
\<close>

datatype fakeResult = FakeResult string "string slice"

type_synonym fakeFetcher = "string \<rightharpoonup> fakeResult"

definition fakeFetcher_Fetch :: "fakeFetcher \<Rightarrow> Fetcher" where
  "fakeFetcher_Fetch f url =
     (case f url of
        Some (FakeResult body urls) \<Rightarrow> (body, urls, None)
      | None \<Rightarrow> ('''', None, Some (''not found: '' @ url)))"

definition fetcher :: fakeFetcher where
  "fetcher =
     [''http://golang.org/'' \<mapsto>
        FakeResult ''The Go Programming Language''
          (Some [''http://golang.org/pkg/'', ''http://golang.org/cmd/'']),
      ''http://golang.org/pkg/'' \<mapsto>
        FakeResult ''Packages''
          (Some [''http://golang.org/'', ''http://golang.org/cmd/'',
                 ''http://golang.org/pkg/fmt/'', ''http://golang.org/pkg/os/'']),
      ''http://golang.org/pkg/fmt/'' \<mapsto>
        FakeResult ''Package fmt''
          (Some [''http://golang.org/'', ''http://golang.org/pkg/'']),
      ''http://golang.org/pkg/os/'' \<mapsto>
        FakeResult ''Package os''
          (Some [''http://golang.org/'', ''http://golang.org/pkg/''])]"

section \<open>The goroutines of the program\<close>

text \<open>
  \<^verbatim>\<open>type Examine struct { Goahead chan bool; Url string }\<close>. Every Crawl goroutine
  makes exactly one \<^verbatim>\<open>shoulddo\<close> channel (line 37), so that channel is identified
  with the index of the goroutine that made it.
\<close>

record Examine =
  Goahead :: nat
  Url :: string

text \<open>
  Control points of one Crawl goroutine, named by the source line about to run:
  \<^item> \<open>L38\<close>: \<^verbatim>\<open>examine <- Examine{shoulddo, url}\<close>;
  \<^item> \<open>L39\<close>: \<^verbatim>\<open>b := <-shoulddo\<close>;
  \<^item> \<open>L41\<close>: \<^verbatim>\<open>if !b { return }\<close>;
  \<^item> \<open>L45\<close>: \<^verbatim>\<open>if depth <= 0 { return }\<close>;
  \<^item> \<open>L50\<close>: \<^verbatim>\<open>body, urls, err := fetcher.Fetch(url)\<close> with the test of \<^verbatim>\<open>err\<close>
    and the print of lines 51 to 55;
  \<^item> \<open>L59 k\<close>: the spawn loop of lines 59 to 61, about to handle \<^verbatim>\<open>urls[k]\<close>;
  \<^item> \<open>L63 k\<close>: the join loop of lines 63 to 66, \<open>k\<close> receives done;
  \<^item> \<open>L30\<close>: the deferred \<^verbatim>\<open>ch <- url\<close>, run by every \<^verbatim>\<open>return\<close>;
  \<^item> \<open>Done\<close>: the goroutine has ended.
\<close>

datatype cpc = L38 | L39 | L41 | L45 | L50 | L59 nat | L63 nat | L30 | Done

text \<open>
  The frame of one Crawl goroutine: the parameters \<open>url\<close>, \<open>depth\<close> and \<open>ch\<close>
  (\<open>None\<close> is the channel \<^verbatim>\<open>ch\<close> of \<^verbatim>\<open>main\<close>, \<open>Some p\<close> the \<^verbatim>\<open>subch\<close> made by
  goroutine \<open>p\<close>), the locals \<open>b\<close> (\<open>None\<close> before line 39 assigns it) and \<open>urls\<close>,
  and the control point. Go's \<^verbatim>\<open>int\<close> is modelled by \<open>int\<close>: the only arithmetic is
  \<^verbatim>\<open>depth-1\<close> on line 60, reached only when \<^verbatim>\<open>depth > 0\<close>, so nothing wraps.
\<close>

record crawl =
  url :: string
  depth :: int
  ch :: "nat option"
  b :: "bool option"
  urls :: "string list"
  pc :: cpc

definition Crawl :: "string \<Rightarrow> int \<Rightarrow> nat option \<Rightarrow> crawl" where
  "Crawl u d c = \<lparr>url = u, depth = d, ch = c, b = None, urls = [], pc = L38\<rparr>"

text \<open>
  Control points of \<^verbatim>\<open>main\<close> (line 83: \<^verbatim>\<open>go Crawl(...)\<close>; line 89: \<^verbatim>\<open>go func()\<close>;
  line 99: \<^verbatim>\<open><-ch\<close>; then the program exits) and of the examine goroutine
  (\<open>E0\<close>: not started; \<open>E91\<close>: \<^verbatim>\<open>v := <-examine\<close>; \<open>E92 v\<close>: lines 92 and 93;
  \<open>E94 v goahead\<close>: \<^verbatim>\<open>v.Goahead <- !goahead\<close>).
\<close>

datatype mpc = M83 | M89 | M99 | MExit

datatype epc = E0 | E91 | E92 Examine | E94 Examine bool

text \<open>What the program prints: the call and its arguments.\<close>

datatype printed = Println error | Printf_found string string

text \<open>
  The state of the program: the control point of \<^verbatim>\<open>main\<close>, the Crawl goroutines in
  the order of their \<^verbatim>\<open>go\<close> statements, the examine goroutine and its map
  \<^verbatim>\<open>emap\<close>, and the standard output. Three history fields record what happened and
  are never read by the program: \<open>claimlog\<close> (the answers the examine goroutine
  delivered: goroutine, url, answer), \<open>fetchlog\<close> (the calls of \<^verbatim>\<open>Fetch\<close>:
  goroutine, url) and \<open>siglog\<close> (the goroutines whose send \<^verbatim>\<open>ch <- url\<close> was
  received).
\<close>

record state =
  mainpc :: mpc
  tasks :: "crawl list"
  exam :: epc
  emap :: "string \<rightharpoonup> bool"
  stdout :: "printed list"
  claimlog :: "(nat \<times> string \<times> bool) list"
  fetchlog :: "(nat \<times> string) list"
  siglog :: "nat list"

definition init :: state where
  "init = \<lparr>mainpc = M83, tasks = [], exam = E0, emap = Map.empty, stdout = [],
            claimlog = [], fetchlog = [], siglog = []\<rparr>"

text \<open>\<^verbatim>\<open>emap[k]\<close> on a \<^verbatim>\<open>map[string]bool\<close>: \<^verbatim>\<open>false\<close> for a missing key.\<close>

definition lookup :: "(string \<rightharpoonup> bool) \<Rightarrow> string \<Rightarrow> bool" where
  "lookup m k = (case m k of None \<Rightarrow> False | Some v \<Rightarrow> v)"

subsection \<open>Steps\<close>

text \<open>
  All channels are unbuffered, so a send and the matching receive happen together.
  A step is chosen by the scheduler:
  \<^item> \<open>Main\<close>: \<^verbatim>\<open>main\<close> runs one of its \<^verbatim>\<open>go\<close> statements;
  \<^item> \<open>Ask i\<close>: goroutine \<open>i\<close> sends on \<^verbatim>\<open>examine\<close> and the examine goroutine receives;
  \<^item> \<open>Exam\<close>: the examine goroutine runs lines 92 and 93, or sends its answer on
    \<^verbatim>\<open>v.Goahead\<close> to the goroutine waiting there;
  \<^item> \<open>Local i\<close>: goroutine \<open>i\<close> runs a step that needs no partner;
  \<^item> \<open>Signal c\<close>: goroutine \<open>c\<close> runs its deferred send and the owner of \<open>ch\<close>
    (its parent in the join loop, or \<^verbatim>\<open>main\<close> on line 99) receives.
  A step that is blocked is \<open>None\<close>. After \<^verbatim>\<open>main\<close> returns the program has
  exited and nothing runs.
\<close>

datatype action = Main | Ask nat | Exam | Local nat | Signal nat

definition exec_main :: "string \<Rightarrow> int \<Rightarrow> state \<Rightarrow> state option" where
  "exec_main root d s =
     (case mainpc s of
        M83 \<Rightarrow> Some (s\<lparr>tasks := tasks s @ [Crawl root d None], mainpc := M89\<rparr>)
      | M89 \<Rightarrow> Some (s\<lparr>exam := E91, mainpc := M99\<rparr>)
      | _ \<Rightarrow> None)"

definition exec_ask :: "nat \<Rightarrow> state \<Rightarrow> state option" where
  "exec_ask i s =
     (if i < length (tasks s) \<and> pc (tasks s ! i) = L38 \<and> exam s = E91
      then Some (s\<lparr>tasks := (tasks s)[i := (tasks s ! i)\<lparr>pc := L39\<rparr>],
                   exam := E92 \<lparr>Goahead = i, Url = url (tasks s ! i)\<rparr>\<rparr>)
      else None)"

definition exec_exam :: "state \<Rightarrow> state option" where
  "exec_exam s =
     (case exam s of
        E92 v \<Rightarrow>
          Some (s\<lparr>exam := E94 v (lookup (emap s) (Url v)),
                  emap := (emap s)(Url v \<mapsto> True)\<rparr>)
      | E94 v goahead \<Rightarrow>
          (if Goahead v < length (tasks s) \<and> pc (tasks s ! Goahead v) = L39
           then Some (s\<lparr>tasks := (tasks s)[Goahead v :=
                                  (tasks s ! Goahead v)\<lparr>b := Some (\<not> goahead), pc := L41\<rparr>],
                        exam := E91,
                        claimlog := claimlog s @ [(Goahead v, Url v, \<not> goahead)]\<rparr>)
           else None)
      | _ \<Rightarrow> None)"

definition exec_local :: "Fetcher \<Rightarrow> nat \<Rightarrow> state \<Rightarrow> state option" where
  "exec_local F i s =
     (if i < length (tasks s) then
        let t = tasks s ! i in
        (case pc t of
           L41 \<Rightarrow>
             Some (s\<lparr>tasks := (tasks s)[i := t\<lparr>pc := (if b t = Some True then L45 else L30)\<rparr>]\<rparr>)
         | L45 \<Rightarrow>
             Some (s\<lparr>tasks := (tasks s)[i := t\<lparr>pc := (if depth t \<le> 0 then L30 else L50)\<rparr>]\<rparr>)
         | L50 \<Rightarrow>
             (case F (url t) of
                (body, us, Some e) \<Rightarrow>
                  Some (s\<lparr>tasks := (tasks s)[i := t\<lparr>pc := L30\<rparr>],
                          stdout := stdout s @ [Println e],
                          fetchlog := fetchlog s @ [(i, url t)]\<rparr>)
              | (body, us, None) \<Rightarrow>
                  Some (s\<lparr>tasks := (tasks s)[i := t\<lparr>urls := elems us, pc := L59 0\<rparr>],
                          stdout := stdout s @ [Printf_found (url t) body],
                          fetchlog := fetchlog s @ [(i, url t)]\<rparr>))
         | L59 k \<Rightarrow>
             (if k < length (urls t)
              then Some (s\<lparr>tasks := (tasks s)[i := t\<lparr>pc := L59 (Suc k)\<rparr>]
                                      @ [Crawl (urls t ! k) (depth t - 1) (Some i)]\<rparr>)
              else Some (s\<lparr>tasks := (tasks s)[i := t\<lparr>pc := L63 0\<rparr>]\<rparr>))
         | L63 k \<Rightarrow>
             (if k < length (urls t) then None
              else Some (s\<lparr>tasks := (tasks s)[i := t\<lparr>pc := L30\<rparr>]\<rparr>))
         | _ \<Rightarrow> None)
      else None)"

definition exec_signal :: "nat \<Rightarrow> state \<Rightarrow> state option" where
  "exec_signal c s =
     (if c < length (tasks s) \<and> pc (tasks s ! c) = L30 then
        (case ch (tasks s ! c) of
           None \<Rightarrow>
             (if mainpc s = M99
              then Some (s\<lparr>tasks := (tasks s)[c := (tasks s ! c)\<lparr>pc := Done\<rparr>],
                           mainpc := MExit, siglog := siglog s @ [c]\<rparr>)
              else None)
         | Some p \<Rightarrow>
             (if p < length (tasks s) then
                (case pc (tasks s ! p) of
                   L63 k \<Rightarrow>
                     (if k < length (urls (tasks s ! p))
                      then Some (s\<lparr>tasks := (tasks s)[c := (tasks s ! c)\<lparr>pc := Done\<rparr>,
                                                         p := (tasks s ! p)\<lparr>pc := L63 (Suc k)\<rparr>],
                                   siglog := siglog s @ [c]\<rparr>)
                      else None)
                 | _ \<Rightarrow> None)
              else None))
      else None)"

definition exec :: "Fetcher \<Rightarrow> string \<Rightarrow> int \<Rightarrow> action \<Rightarrow> state \<Rightarrow> state option" where
  "exec F root d a s =
     (if mainpc s = MExit then None
      else (case a of
              Main \<Rightarrow> exec_main root d s
            | Ask i \<Rightarrow> exec_ask i s
            | Exam \<Rightarrow> exec_exam s
            | Local i \<Rightarrow> exec_local F i s
            | Signal c \<Rightarrow> exec_signal c s))"

text \<open>
  A run is the program started in \<open>init\<close> under a schedule; \<open>None\<close> when the schedule
  asks for a step that is blocked. \<^verbatim>\<open>main\<close> of the source is the instance
  \<open>run (fakeFetcher_Fetch fetcher) ''http://golang.org/'' 4\<close>.
\<close>

fun run :: "Fetcher \<Rightarrow> string \<Rightarrow> int \<Rightarrow> action list \<Rightarrow> state \<Rightarrow> state option" where
  "run F root d [] s = Some s"
| "run F root d (a # as) s =
     (case exec F root d a s of None \<Rightarrow> None | Some s' \<Rightarrow> run F root d as s')"

fun pending :: "epc \<Rightarrow> Examine option" where
  "pending (E92 v) = Some v"
| "pending (E94 v g) = Some v"
| "pending _ = None"

fun answered :: "cpc \<Rightarrow> bool" where
  "answered L38 = False"
| "answered L39 = False"
| "answered _ = True"

fun past_claim :: "cpc \<Rightarrow> bool" where
  "past_claim L45 = True"
| "past_claim L50 = True"
| "past_claim (L59 k) = True"
| "past_claim (L63 k) = True"
| "past_claim _ = False"

fun past_depth :: "cpc \<Rightarrow> bool" where
  "past_depth L50 = True"
| "past_depth (L59 k) = True"
| "past_depth (L63 k) = True"
| "past_depth _ = False"

fun past_fetch :: "cpc \<Rightarrow> bool" where
  "past_fetch (L59 k) = True"
| "past_fetch (L63 k) = True"
| "past_fetch L30 = True"
| "past_fetch Done = True"
| "past_fetch _ = False"

definition inv_struct :: "string \<Rightarrow> int \<Rightarrow> state \<Rightarrow> bool" where
  "inv_struct root d s \<longleftrightarrow>
     (mainpc s = M83 \<longrightarrow> tasks s = []) \<and>
     (mainpc s \<noteq> M83 \<longrightarrow>
        tasks s \<noteq> [] \<and> ch (tasks s ! 0) = None \<and> url (tasks s ! 0) = root
        \<and> depth (tasks s ! 0) = d) \<and>
     (\<forall>i < length (tasks s). case ch (tasks s ! i) of None \<Rightarrow> i = 0 | Some p \<Rightarrow> p < i) \<and>
     (exam s = E0 \<longleftrightarrow> mainpc s = M83 \<or> mainpc s = M89) \<and>
     (mainpc s = MExit \<longleftrightarrow> tasks s \<noteq> [] \<and> pc (tasks s ! 0) = Done)"

fun asker :: "epc \<Rightarrow> nat option" where
  "asker (E92 v) = Some (Goahead v)"
| "asker (E94 v g) = Some (Goahead v)"
| "asker _ = None"

definition inv_exam :: "state \<Rightarrow> bool" where
  "inv_exam s \<longleftrightarrow>
     (\<forall>v. pending (exam s) = Some v \<longrightarrow>
        Goahead v < length (tasks s) \<and> pc (tasks s ! Goahead v) = L39
        \<and> url (tasks s ! Goahead v) = Url v) \<and>
     (\<forall>i < length (tasks s). asker (exam s) \<noteq> Some i \<longrightarrow> pc (tasks s ! i) \<noteq> L39)"

definition inv_locals :: "state \<Rightarrow> bool" where
  "inv_locals s \<longleftrightarrow>
     (\<forall>i < length (tasks s).
        (answered (pc (tasks s ! i)) \<longleftrightarrow> b (tasks s ! i) \<noteq> None) \<and>
        (past_claim (pc (tasks s ! i)) \<longrightarrow> b (tasks s ! i) = Some True) \<and>
        (past_depth (pc (tasks s ! i)) \<longrightarrow> 0 < depth (tasks s ! i)) \<and>
        (\<not> past_fetch (pc (tasks s ! i)) \<longrightarrow> urls (tasks s ! i) = []) \<and>
        (urls (tasks s ! i) \<noteq> [] \<longrightarrow> b (tasks s ! i) = Some True \<and> 0 < depth (tasks s ! i)))"

fun answering :: "epc \<Rightarrow> string option" where
  "answering (E94 v g) = Some (Url v)"
| "answering _ = None"

definition claimed :: "(nat \<times> string \<times> bool) list \<Rightarrow> string set" where
  "claimed log = set (map (\<lambda>e. fst (snd e)) log)"

definition first_wins :: "(nat \<times> string \<times> bool) list \<Rightarrow> bool" where
  "first_wins log \<longleftrightarrow>
     (\<forall>k < length log. snd (snd (log ! k)) = (fst (snd (log ! k)) \<notin> claimed (take k log)))"

definition inv_log :: "state \<Rightarrow> bool" where
  "inv_log s \<longleftrightarrow>
     (\<forall>e \<in> set (claimlog s).
        fst e < length (tasks s) \<and> url (tasks s ! fst e) = fst (snd e)
        \<and> b (tasks s ! fst e) = Some (snd (snd e))) \<and>
     (\<forall>i < length (tasks s). \<forall>a. b (tasks s ! i) = Some a \<longrightarrow>
        (i, url (tasks s ! i), a) \<in> set (claimlog s))"

definition inv_emap :: "state \<Rightarrow> bool" where
  "inv_emap s \<longleftrightarrow>
     (\<forall>u. lookup (emap s) u \<longleftrightarrow> u \<in> claimed (claimlog s) \<or> answering (exam s) = Some u) \<and>
     (case exam s of E94 v g \<Rightarrow> g = (Url v \<in> claimed (claimlog s)) | _ \<Rightarrow> True) \<and>
     first_wins (claimlog s)"

definition inv_fetch :: "state \<Rightarrow> bool" where
  "inv_fetch s \<longleftrightarrow>
     (\<forall>e \<in> set (fetchlog s).
        fst e < length (tasks s) \<and> url (tasks s ! fst e) = snd e
        \<and> past_fetch (pc (tasks s ! fst e)) \<and> b (tasks s ! fst e) = Some True
        \<and> 0 < depth (tasks s ! fst e)) \<and>
     (\<forall>i < length (tasks s).
        past_fetch (pc (tasks s ! i)) \<and> b (tasks s ! i) = Some True \<and> 0 < depth (tasks s ! i)
        \<longrightarrow> (i, url (tasks s ! i)) \<in> set (fetchlog s))"

definition inv_once :: "state \<Rightarrow> bool" where
  "inv_once s \<longleftrightarrow> distinct (map snd (fetchlog s))"

definition inv_out :: "Fetcher \<Rightarrow> state \<Rightarrow> bool" where
  "inv_out F s \<longleftrightarrow>
     (\<forall>e \<in> set (fetchlog s).
        case F (snd e) of
          (body, us, Some er) \<Rightarrow>
            Println er \<in> set (stdout s) \<and> urls (tasks s ! fst e) = []
            \<and> (pc (tasks s ! fst e) = L30 \<or> pc (tasks s ! fst e) = Done)
        | (body, us, None) \<Rightarrow>
            Printf_found (snd e) body \<in> set (stdout s) \<and> urls (tasks s ! fst e) = elems us)"

definition kids :: "crawl list \<Rightarrow> nat \<Rightarrow> crawl list" where
  "kids ts p = filter (\<lambda>t. ch t = Some p) ts"

definition joined :: "crawl list \<Rightarrow> nat \<Rightarrow> nat" where
  "joined ts p = length (filter (\<lambda>t. ch t = Some p \<and> pc t = Done) ts)"

definition nspawned :: "crawl \<Rightarrow> nat" where
  "nspawned t = (case pc t of L59 k \<Rightarrow> k | _ \<Rightarrow> length (urls t))"

definition njoined :: "crawl \<Rightarrow> nat" where
  "njoined t = (case pc t of L63 k \<Rightarrow> k | L30 \<Rightarrow> length (urls t) | Done \<Rightarrow> length (urls t) | _ \<Rightarrow> 0)"

definition kids_ok :: "crawl list \<Rightarrow> bool" where
  "kids_ok ts \<longleftrightarrow>
     (\<forall>p < length ts.
        map url (kids ts p) = take (nspawned (ts ! p)) (urls (ts ! p))
        \<and> nspawned (ts ! p) \<le> length (urls (ts ! p)))"

definition inv_kids :: "state \<Rightarrow> bool" where
  "inv_kids s \<longleftrightarrow> kids_ok (tasks s)"

definition join_ok :: "crawl list \<Rightarrow> bool" where
  "join_ok ts \<longleftrightarrow> (\<forall>p < length ts. joined ts p = njoined (ts ! p))"

definition inv_join :: "state \<Rightarrow> bool" where
  "inv_join s \<longleftrightarrow> join_ok (tasks s)"

definition inv_depth :: "state \<Rightarrow> bool" where
  "inv_depth s \<longleftrightarrow>
     (\<forall>c < length (tasks s).
        case ch (tasks s ! c) of
          None \<Rightarrow> True
        | Some p \<Rightarrow> depth (tasks s ! c) = depth (tasks s ! p) - 1)"

definition inv_sig :: "state \<Rightarrow> bool" where
  "inv_sig s \<longleftrightarrow>
     distinct (siglog s) \<and>
     (\<forall>i. i \<in> set (siglog s) \<longleftrightarrow> i < length (tasks s) \<and> pc (tasks s ! i) = Done)"

definition inv_order :: "state \<Rightarrow> bool" where
  "inv_order s \<longleftrightarrow>
     (\<forall>k < length (siglog s). \<forall>c < length (tasks s).
        ch (tasks s ! c) = Some (siglog s ! k) \<longrightarrow> c \<in> set (take k (siglog s)))"

text \<open>The urls the examine goroutine answered \<^verbatim>\<open>true\<close> for, in the order of its answers.\<close>

definition winners :: "(nat \<times> string \<times> bool) list \<Rightarrow> string list" where
  "winners log = map (\<lambda>e. fst (snd e)) (filter (\<lambda>e. snd (snd e)) log)"

definition inv :: "Fetcher \<Rightarrow> string \<Rightarrow> int \<Rightarrow> state \<Rightarrow> bool" where
  "inv F root d s \<longleftrightarrow>
     inv_struct root d s \<and> inv_exam s \<and> inv_locals s \<and> inv_log s \<and> inv_emap s
     \<and> inv_fetch s \<and> inv_once s \<and> inv_out F s \<and> inv_sig s \<and> inv_depth s \<and> inv_kids s
     \<and> inv_join s \<and> inv_order s"

text \<open>
  The spawn generation of a goroutine: 0 for the one started by \<^verbatim>\<open>main\<close>, one more than
  its parent's for a goroutine started on line 60.
\<close>

inductive generation :: "crawl list \<Rightarrow> nat \<Rightarrow> nat \<Rightarrow> bool" for ts :: "crawl list" where
  gen_root: "i < length ts \<Longrightarrow> ch (ts ! i) = None \<Longrightarrow> generation ts i 0"
| gen_child:
    "i < length ts \<Longrightarrow> ch (ts ! i) = Some p \<Longrightarrow> generation ts p g \<Longrightarrow> generation ts i (Suc g)"

subsection \<open>A bound on the steps a state has left\<close>

text \<open>
  \<open>cost F n u\<close> bounds the steps charged to a new Crawl goroutine for \<open>u\<close> with depth
  \<open>n\<close> and to all goroutines it can spawn; \<open>weight\<close> is the same bound for a goroutine
  that has already run to its control point. The steps of the examine goroutine for a
  request are charged to \<open>eweight\<close>, those of \<^verbatim>\<open>main\<close> to \<open>mweight\<close>.
\<close>

fun cost :: "Fetcher \<Rightarrow> nat \<Rightarrow> string \<Rightarrow> nat" where
  "cost F 0 u = 6"
| "cost F (Suc n) u =
     6 + (case F u of
            (body, us, Some e) \<Rightarrow> 1
          | (body, us, None) \<Rightarrow> sum_list (map (\<lambda>v. Suc (cost F n v)) (elems us)) + 3)"

definition spawn_cost :: "Fetcher \<Rightarrow> int \<Rightarrow> string list \<Rightarrow> nat" where
  "spawn_cost F dd us = sum_list (map (\<lambda>v. Suc (cost F (nat (dd - 1)) v)) us)"

definition w50 :: "Fetcher \<Rightarrow> string \<Rightarrow> int \<Rightarrow> nat" where
  "w50 F u dd =
     1 + (case F u of
            (body, us, Some e) \<Rightarrow> 1
          | (body, us, None) \<Rightarrow> spawn_cost F dd (elems us) + 3)"

definition w45 :: "Fetcher \<Rightarrow> string \<Rightarrow> int \<Rightarrow> nat" where
  "w45 F u dd = 1 + (if dd \<le> 0 then 1 else w50 F u dd)"

definition weight :: "Fetcher \<Rightarrow> crawl \<Rightarrow> nat" where
  "weight F t =
     (case pc t of
        L38 \<Rightarrow> 4 + w45 F (url t) (depth t)
      | L39 \<Rightarrow> 1 + w45 F (url t) (depth t)
      | L41 \<Rightarrow> 1 + w45 F (url t) (depth t)
      | L45 \<Rightarrow> w45 F (url t) (depth t)
      | L50 \<Rightarrow> w50 F (url t) (depth t)
      | L59 k \<Rightarrow> spawn_cost F (depth t) (drop k (urls t)) + 3
      | L63 k \<Rightarrow> 2
      | L30 \<Rightarrow> 1
      | Done \<Rightarrow> 0)"

fun mweight :: "Fetcher \<Rightarrow> string \<Rightarrow> int \<Rightarrow> mpc \<Rightarrow> nat" where
  "mweight F root d M83 = cost F (nat d) root + 3"
| "mweight F root d M89 = 2"
| "mweight F root d M99 = 1"
| "mweight F root d MExit = 0"

fun eweight :: "epc \<Rightarrow> nat" where
  "eweight (E92 v) = 2"
| "eweight (E94 v g) = 1"
| "eweight _ = 0"

definition steps_left :: "Fetcher \<Rightarrow> string \<Rightarrow> int \<Rightarrow> state \<Rightarrow> nat" where
  "steps_left F root d s =
     mweight F root d (mainpc s) + eweight (exam s) + sum_list (map (weight F) (tasks s))"

lemma exec_cases [consumes 1, case_names main83 main89 ask exam92 exam94 l41 l45 l50err l50ok
    spawn spawn_exit join_exit signal_main signal_parent]:
  assumes "exec F root d a s = Some s'"
  obtains
    (main83) "a = Main" "mainpc s = M83"
      "s' = s\<lparr>tasks := tasks s @ [Crawl root d None], mainpc := M89\<rparr>"
  | (main89) "a = Main" "mainpc s = M89" "s' = s\<lparr>exam := E91, mainpc := M99\<rparr>"
  | (ask) i where "a = Ask i" "mainpc s \<noteq> MExit" "i < length (tasks s)"
      "pc (tasks s ! i) = L38" "exam s = E91"
      "s' = s\<lparr>tasks := (tasks s)[i := (tasks s ! i)\<lparr>pc := L39\<rparr>],
               exam := E92 \<lparr>Goahead = i, Url = url (tasks s ! i)\<rparr>\<rparr>"
  | (exam92) v where "a = Exam" "mainpc s \<noteq> MExit" "exam s = E92 v"
      "s' = s\<lparr>exam := E94 v (lookup (emap s) (Url v)), emap := (emap s)(Url v \<mapsto> True)\<rparr>"
  | (exam94) v g where "a = Exam" "mainpc s \<noteq> MExit" "exam s = E94 v g"
      "Goahead v < length (tasks s)" "pc (tasks s ! Goahead v) = L39"
      "s' = s\<lparr>tasks := (tasks s)[Goahead v := (tasks s ! Goahead v)\<lparr>b := Some (\<not> g), pc := L41\<rparr>],
               exam := E91, claimlog := claimlog s @ [(Goahead v, Url v, \<not> g)]\<rparr>"
  | (l41) i where "a = Local i" "mainpc s \<noteq> MExit" "i < length (tasks s)"
      "pc (tasks s ! i) = L41"
      "s' = s\<lparr>tasks := (tasks s)[i := (tasks s ! i)
                 \<lparr>pc := (if b (tasks s ! i) = Some True then L45 else L30)\<rparr>]\<rparr>"
  | (l45) i where "a = Local i" "mainpc s \<noteq> MExit" "i < length (tasks s)"
      "pc (tasks s ! i) = L45"
      "s' = s\<lparr>tasks := (tasks s)[i := (tasks s ! i)
                 \<lparr>pc := (if depth (tasks s ! i) \<le> 0 then L30 else L50)\<rparr>]\<rparr>"
  | (l50err) i body us e where "a = Local i" "mainpc s \<noteq> MExit" "i < length (tasks s)"
      "pc (tasks s ! i) = L50" "F (url (tasks s ! i)) = (body, us, Some e)"
      "s' = s\<lparr>tasks := (tasks s)[i := (tasks s ! i)\<lparr>pc := L30\<rparr>],
               stdout := stdout s @ [Println e],
               fetchlog := fetchlog s @ [(i, url (tasks s ! i))]\<rparr>"
  | (l50ok) i body us where "a = Local i" "mainpc s \<noteq> MExit" "i < length (tasks s)"
      "pc (tasks s ! i) = L50" "F (url (tasks s ! i)) = (body, us, None)"
      "s' = s\<lparr>tasks := (tasks s)[i := (tasks s ! i)\<lparr>urls := elems us, pc := L59 0\<rparr>],
               stdout := stdout s @ [Printf_found (url (tasks s ! i)) body],
               fetchlog := fetchlog s @ [(i, url (tasks s ! i))]\<rparr>"
  | (spawn) i k where "a = Local i" "mainpc s \<noteq> MExit" "i < length (tasks s)"
      "pc (tasks s ! i) = L59 k" "k < length (urls (tasks s ! i))"
      "s' = s\<lparr>tasks := (tasks s)[i := (tasks s ! i)\<lparr>pc := L59 (Suc k)\<rparr>]
                 @ [Crawl (urls (tasks s ! i) ! k) (depth (tasks s ! i) - 1) (Some i)]\<rparr>"
  | (spawn_exit) i k where "a = Local i" "mainpc s \<noteq> MExit" "i < length (tasks s)"
      "pc (tasks s ! i) = L59 k" "\<not> k < length (urls (tasks s ! i))"
      "s' = s\<lparr>tasks := (tasks s)[i := (tasks s ! i)\<lparr>pc := L63 0\<rparr>]\<rparr>"
  | (join_exit) i k where "a = Local i" "mainpc s \<noteq> MExit" "i < length (tasks s)"
      "pc (tasks s ! i) = L63 k" "\<not> k < length (urls (tasks s ! i))"
      "s' = s\<lparr>tasks := (tasks s)[i := (tasks s ! i)\<lparr>pc := L30\<rparr>]\<rparr>"
  | (signal_main) c where "a = Signal c" "c < length (tasks s)"
      "pc (tasks s ! c) = L30" "ch (tasks s ! c) = None" "mainpc s = M99"
      "s' = s\<lparr>tasks := (tasks s)[c := (tasks s ! c)\<lparr>pc := Done\<rparr>],
               mainpc := MExit, siglog := siglog s @ [c]\<rparr>"
  | (signal_parent) c p k where "a = Signal c" "mainpc s \<noteq> MExit" "c < length (tasks s)"
      "pc (tasks s ! c) = L30" "ch (tasks s ! c) = Some p" "p < length (tasks s)"
      "pc (tasks s ! p) = L63 k" "k < length (urls (tasks s ! p))" "c \<noteq> p"
      "s' = s\<lparr>tasks := (tasks s)[c := (tasks s ! c)\<lparr>pc := Done\<rparr>,
                                     p := (tasks s ! p)\<lparr>pc := L63 (Suc k)\<rparr>],
               siglog := siglog s @ [c]\<rparr>"
proof (cases a)
  case Main
  with assms show ?thesis
    by (auto simp: exec_def exec_main_def split: if_splits mpc.splits intro: main83 main89)
next
  case (Ask i)
  with assms show ?thesis
    by (auto simp: exec_def exec_ask_def split: if_splits intro: ask)
next
  case Exam
  with assms show ?thesis
    by (auto simp: exec_def exec_exam_def split: if_splits epc.splits intro: exam92 exam94)
next
  case (Local i)
  with assms have ne: "mainpc s \<noteq> MExit" and l: "exec_local F i s = Some s'"
    by (auto simp: exec_def split: if_splits)
  from l have i: "i < length (tasks s)"
    by (auto simp: exec_local_def Let_def split: if_splits)
  show ?thesis
  proof (cases "pc (tasks s ! i)")
    case L41
    with l i ne Local show ?thesis by (intro l41) (auto simp: exec_local_def Let_def)
  next
    case L45
    with l i ne Local show ?thesis by (intro l45) (auto simp: exec_local_def Let_def)
  next
    case L50
    obtain body us e where f: "F (url (tasks s ! i)) = (body, us, e)"
      by (cases "F (url (tasks s ! i))") auto
    show ?thesis
    proof (cases e)
      case None
      with l i ne Local L50 f show ?thesis by (intro l50ok) (auto simp: exec_local_def Let_def)
    next
      case (Some x)
      with l i ne Local L50 f show ?thesis by (intro l50err) (auto simp: exec_local_def Let_def)
    qed
  next
    case (L59 k)
    show ?thesis
    proof (cases "k < length (urls (tasks s ! i))")
      case True
      with l i ne Local L59 show ?thesis by (intro spawn) (auto simp: exec_local_def Let_def)
    next
      case False
      with l i ne Local L59 show ?thesis by (intro spawn_exit) (auto simp: exec_local_def Let_def)
    qed
  next
    case (L63 k)
    with l i ne Local show ?thesis
      by (intro join_exit) (auto simp: exec_local_def Let_def split: if_splits)
  qed (use l i in \<open>auto simp: exec_local_def Let_def\<close>)
next
  case (Signal c)
  with assms have ne: "mainpc s \<noteq> MExit" and l: "exec_signal c s = Some s'"
    by (auto simp: exec_def split: if_splits)
  from l have c: "c < length (tasks s)" "pc (tasks s ! c) = L30"
    by (auto simp: exec_signal_def split: if_splits)
  show ?thesis
  proof (cases "ch (tasks s ! c)")
    case None
    with l c ne Signal show ?thesis
      by (intro signal_main) (auto simp: exec_signal_def split: if_splits)
  next
    case (Some p)
    with l c have p: "p < length (tasks s)"
      by (auto simp: exec_signal_def split: if_splits)
    with l c Some obtain k where k: "pc (tasks s ! p) = L63 k" "k < length (urls (tasks s ! p))"
      by (auto simp: exec_signal_def split: if_splits cpc.splits)
    with c have "c \<noteq> p" by auto
    with l c ne Signal Some p k show ?thesis
      by (intro signal_parent[of c p k]) (auto simp: exec_signal_def)
  qed
qed

lemma run_append:
  "run F root d (as @ bs) s =
     (case run F root d as s of None \<Rightarrow> None | Some s' \<Rightarrow> run F root d bs s')"
  by (induction as arbitrary: s) (auto split: option.splits)

lemma run_invariant:
  assumes "run F root d as s0 = Some s" and "P s0"
    and "\<And>a s s'. P s \<Longrightarrow> exec F root d a s = Some s' \<Longrightarrow> P s'"
  shows "P s"
  using assms(1,2)
proof (induction as arbitrary: s0)
  case Nil
  then show ?case by simp
next
  case (Cons a as)
  then show ?case by (auto split: option.splits intro: assms(3))
qed

lemma inv_struct_init: "inv_struct root d init"
  by (simp add: inv_struct_def init_def)

lemma inv_struct_step:
  assumes "exec F root d a s = Some s'" "inv_struct root d s"
  shows "inv_struct root d s'"
  using assms
  by (cases rule: exec_cases;
      auto simp: inv_struct_def nth_list_update nth_append Crawl_def split: option.splits)

lemma inv_exam_init: "inv_exam init"
  by (simp add: inv_exam_def init_def)

lemma inv_exam_step:
  assumes "exec F root d a s = Some s'" "inv_exam s" "inv_struct root d s"
  shows "inv_exam s'"
  using assms
  by (cases rule: exec_cases;
      auto simp: inv_exam_def inv_struct_def nth_list_update nth_append Crawl_def split: if_splits)

lemma inv_locals_init: "inv_locals init"
  by (simp add: inv_locals_def init_def)

lemma inv_locals_step:
  assumes "exec F root d a s = Some s'" "inv_locals s"
  shows "inv_locals s'"
  using assms
  by (cases rule: exec_cases;
      auto simp: inv_locals_def nth_list_update nth_append Crawl_def split: if_splits)

lemma claimed_snoc: "claimed (log @ [e]) = insert (fst (snd e)) (claimed log)"
  by (simp add: claimed_def)

lemma claimed_Nil: "claimed [] = {}"
  by (simp add: claimed_def)

lemma first_wins_snoc:
  "first_wins (log @ [e]) \<longleftrightarrow> first_wins log \<and> snd (snd e) = (fst (snd e) \<notin> claimed log)"
  by (auto simp: first_wins_def nth_append less_Suc_eq)

lemma first_wins_Nil: "first_wins []"
  by (simp add: first_wins_def)

lemma winners_unique:
  assumes "first_wins log" "(i, u, True) \<in> set log" "(j, u, True) \<in> set log"
  shows "i = j"
proof -
  from assms(2) obtain k1 where k1: "k1 < length log" "log ! k1 = (i, u, True)"
    by (auto simp: in_set_conv_nth)
  from assms(3) obtain k2 where k2: "k2 < length log" "log ! k2 = (j, u, True)"
    by (auto simp: in_set_conv_nth)
  have no: "\<And>k k'. k < k' \<Longrightarrow> k' < length log \<Longrightarrow> fst (snd (log ! k)) = u
              \<Longrightarrow> fst (snd (log ! k')) = u \<Longrightarrow> \<not> snd (snd (log ! k'))"
  proof -
    fix k k' assume h: "k < k'" "k' < length log" "fst (snd (log ! k)) = u"
      "fst (snd (log ! k')) = u"
    then have "log ! k \<in> set (take k' log)"
      by (auto simp: in_set_conv_nth intro!: exI[of _ k])
    with h(3) have "u \<in> claimed (take k' log)"
      by (force simp: claimed_def)
    with assms(1) h(2,4) show "\<not> snd (snd (log ! k'))"
      by (simp add: first_wins_def)
  qed
  have "k1 = k2"
  proof (rule ccontr)
    assume "k1 \<noteq> k2"
    then consider "k1 < k2" | "k2 < k1" by linarith
    then show False
    proof cases
      case 1
      from no[OF 1 k2(1)] k1 k2 show False by simp
    next
      case 2
      from no[OF 2 k1(1)] k1 k2 show False by simp
    qed
  qed
  with k1 k2 show ?thesis by simp
qed

lemma inv_log_b:
  "inv_log s \<Longrightarrow> i < length (tasks s) \<Longrightarrow> b (tasks s ! i) = Some a
   \<Longrightarrow> (i, url (tasks s ! i), a) \<in> set (claimlog s)"
  by (simp add: inv_log_def)

lemma winner_tasks_unique:
  assumes "inv_log s" "inv_emap s" "i < length (tasks s)" "j < length (tasks s)"
    "b (tasks s ! i) = Some True" "b (tasks s ! j) = Some True"
    "url (tasks s ! i) = url (tasks s ! j)"
  shows "i = j"
proof -
  have fw: "first_wins (claimlog s)"
    using assms(2) by (simp add: inv_emap_def)
  have 1: "(i, url (tasks s ! i), True) \<in> set (claimlog s)"
    by (rule inv_log_b[OF assms(1,3,5)])
  have "(j, url (tasks s ! j), True) \<in> set (claimlog s)"
    by (rule inv_log_b[OF assms(1,4,6)])
  then have 2: "(j, url (tasks s ! i), True) \<in> set (claimlog s)"
    by (simp only: assms(7))
  from winners_unique[OF fw 1 2] show ?thesis .
qed

lemma inv_emap_init: "inv_emap init"
  by (simp add: inv_emap_def init_def lookup_def claimed_Nil first_wins_Nil)

lemma inv_emap_step:
  assumes "exec F root d a s = Some s'" "inv_emap s" "inv_struct root d s"
  shows "inv_emap s'"
  using assms
proof (cases rule: exec_cases)
  case main89
  with assms(2-) show ?thesis
    by (auto simp: inv_emap_def inv_struct_def)
qed (auto simp: inv_emap_def claimed_snoc first_wins_snoc lookup_def split: epc.splits)

lemma inv_log_init: "inv_log init"
  by (simp add: inv_log_def init_def)

lemma inv_locals_L39:
  "inv_locals s \<Longrightarrow> i < length (tasks s) \<Longrightarrow> pc (tasks s ! i) = L39 \<Longrightarrow> b (tasks s ! i) = None"
  by (auto simp: inv_locals_def)

lemma inv_log_step:
  assumes "exec F root d a s = Some s'" "inv_log s" "inv_exam s" "inv_locals s"
  shows "inv_log s'"
  using assms(1,2)
proof (cases rule: exec_cases)
  case (exam94 v g)
  have "b (tasks s ! Goahead v) = None"
    using exam94 assms(4) by (intro inv_locals_L39) auto
  moreover have "url (tasks s ! Goahead v) = Url v"
    using exam94 assms(3) by (simp add: inv_exam_def)
  ultimately show ?thesis using exam94 assms(2)
    by (auto simp: inv_log_def nth_list_update split: if_splits)
qed (auto simp: inv_log_def nth_list_update nth_append Crawl_def split: if_splits)

lemma inv_fetch_init: "inv_fetch init"
  by (simp add: inv_fetch_def init_def)

lemma inv_fetch_step:
  assumes "exec F root d a s = Some s'" "inv_fetch s" "inv_locals s"
  shows "inv_fetch s'"
  using assms
  by (cases rule: exec_cases;
      auto simp: inv_fetch_def inv_locals_def nth_list_update nth_append Crawl_def split: if_splits)

lemma inv_sig_init: "inv_sig init"
  by (simp add: inv_sig_def init_def)

lemma inv_sig_step:
  assumes "exec F root d a s = Some s'" "inv_sig s"
  shows "inv_sig s'"
  using assms
  by (cases rule: exec_cases;
      auto simp: inv_sig_def nth_list_update nth_append Crawl_def split: if_splits)

lemma inv_depth_init: "inv_depth init"
  by (simp add: inv_depth_def init_def)

lemma inv_depth_step:
  assumes "exec F root d a s = Some s'" "inv_depth s" "inv_struct root d s"
  shows "inv_depth s'"
  using assms
  by (cases rule: exec_cases;
      auto simp: inv_depth_def inv_struct_def nth_list_update nth_append Crawl_def
           split: if_splits option.splits)

lemma inv_once_init: "inv_once init"
  by (simp add: inv_once_def init_def)

lemma L50_not_fetched:
  assumes "inv_fetch s" "inv_log s" "inv_emap s" "inv_locals s"
    "i < length (tasks s)" "pc (tasks s ! i) = L50"
  shows "url (tasks s ! i) \<notin> snd ` set (fetchlog s)"
proof
  assume "url (tasks s ! i) \<in> snd ` set (fetchlog s)"
  then obtain j where j: "(j, url (tasks s ! i)) \<in> set (fetchlog s)"
    by auto
  with assms(1) have f: "j < length (tasks s)" "url (tasks s ! j) = url (tasks s ! i)"
    "past_fetch (pc (tasks s ! j))" "b (tasks s ! j) = Some True"
    by (auto simp: inv_fetch_def)
  from assms(4,5,6) have "b (tasks s ! i) = Some True"
    by (auto simp: inv_locals_def)
  from winner_tasks_unique[OF assms(2,3) f(1) assms(5) f(4) this f(2)] have "j = i" .
  with f(3) assms(6) show False by simp
qed

lemma inv_once_step:
  assumes "exec F root d a s = Some s'" "inv_once s"
    "inv_fetch s" "inv_log s" "inv_emap s" "inv_locals s"
  shows "inv_once s'"
  using assms(1,2)
proof (cases rule: exec_cases)
  case (l50err i body us e)
  with L50_not_fetched[OF assms(3-6), of i] assms(2) show ?thesis
    by (simp add: inv_once_def)
next
  case (l50ok i body us)
  with L50_not_fetched[OF assms(3-6), of i] assms(2) show ?thesis
    by (simp add: inv_once_def)
qed (simp_all add: inv_once_def)

lemma inv_out_init: "inv_out F init"
  by (simp add: inv_out_def init_def)

lemma inv_out_step:
  assumes "exec F root d a s = Some s'" "inv_out F s" "inv_fetch s" "inv_locals s"
  shows "inv_out F s'"
  using assms
  by (cases rule: exec_cases;
      auto simp: inv_out_def inv_fetch_def inv_locals_def nth_list_update nth_append Crawl_def
           split: if_splits option.splits prod.splits)

lemma kids_snoc: "kids (ts @ [t]) p = kids ts p @ (if ch t = Some p then [t] else [])"
  by (simp add: kids_def)

lemma joined_snoc:
  "joined (ts @ [t]) p = joined ts p + (if ch t = Some p \<and> pc t = Done then 1 else 0)"
  by (simp add: joined_def)

lemma map_url_kids_update:
  "i < length ts \<Longrightarrow> ch t = ch (ts ! i) \<Longrightarrow> url t = url (ts ! i)
   \<Longrightarrow> map url (kids (ts[i := t]) p) = map url (kids ts p)"
proof (induction ts arbitrary: i)
  case Nil
  then show ?case by simp
next
  case (Cons x xs)
  then show ?case by (cases i) (auto simp: kids_def)
qed

lemma count_update:
  "i < length ts \<Longrightarrow>
   length (filter P (ts[i := t])) + (if P (ts ! i) then 1 else 0)
     = length (filter P ts) + (if P t then 1 else 0)"
proof (induction ts arbitrary: i)
  case Nil
  then show ?case by simp
next
  case (Cons x xs)
  show ?case
  proof (cases i)
    case 0
    then show ?thesis by simp
  next
    case (Suc j)
    with Cons.prems have "j < length xs" by simp
    from Cons.IH[OF this] Suc show ?thesis by simp
  qed
qed

lemma joined_update_same:
  assumes "i < length ts" "ch t = ch (ts ! i)" "pc t = Done \<longleftrightarrow> pc (ts ! i) = Done"
  shows "joined (ts[i := t]) p = joined ts p"
  using count_update[OF assms(1), of "\<lambda>t. ch t = Some p \<and> pc t = Done" t] assms(2,3)
  by (auto simp: joined_def split: if_splits)

lemma joined_update_done:
  assumes "i < length ts" "ch t = ch (ts ! i)" "pc (ts ! i) \<noteq> Done" "pc t = Done"
  shows "joined (ts[i := t]) p = joined ts p + (if ch t = Some p then 1 else 0)"
  using count_update[OF assms(1), of "\<lambda>t. ch t = Some p \<and> pc t = Done" t] assms(2-)
  by (auto simp: joined_def split: if_splits)

lemma joined_le_kids: "joined ts p \<le> length (kids ts p)"
  unfolding joined_def kids_def
  by (induction ts) auto

lemma kids_all_done:
  "joined ts p = length (kids ts p) \<Longrightarrow> t \<in> set ts \<Longrightarrow> ch t = Some p \<Longrightarrow> pc t = Done"
proof (induction ts)
  case Nil
  then show ?case by simp
next
  case (Cons x xs)
  have le: "joined xs p \<le> length (kids xs p)" by (rule joined_le_kids)
  from Cons.prems(1) le have "joined xs p = length (kids xs p)"
    by (auto simp: joined_def kids_def split: if_splits)
  with Cons show ?case
    using le by (auto simp: joined_def kids_def split: if_splits)
qed

lemma kids_none:
  "kids ts p = [] \<Longrightarrow> t \<in> set ts \<Longrightarrow> ch t \<noteq> Some p"
  by (auto simp: kids_def filter_empty_conv)

lemma parent_less:
  "inv_struct root d s \<Longrightarrow> c < length (tasks s) \<Longrightarrow> ch (tasks s ! c) = Some p \<Longrightarrow> p < c"
  by (auto simp: inv_struct_def split: option.splits)

lemma no_kids_beyond:
  assumes "inv_struct root d s" "length (tasks s) \<le> p"
  shows "kids (tasks s) p = []" and "joined (tasks s) p = 0"
proof -
  have "\<And>t. t \<in> set (tasks s) \<Longrightarrow> ch t \<noteq> Some p"
  proof
    fix t assume "t \<in> set (tasks s)" "ch t = Some p"
    then obtain c where "c < length (tasks s)" "ch (tasks s ! c) = Some p"
      by (auto simp: in_set_conv_nth)
    with parent_less[OF assms(1)] assms(2) show False by fastforce
  qed
  then show "kids (tasks s) p = []" "joined (tasks s) p = 0"
    by (auto simp: kids_def joined_def filter_empty_conv)
qed

lemma kids_ok_update:
  assumes "kids_ok ts" "i < length ts" "ch t = ch (ts ! i)" "url t = url (ts ! i)"
    "take (nspawned t) (urls t) = take (nspawned (ts ! i)) (urls (ts ! i))"
    "nspawned t \<le> length (urls t)"
  shows "kids_ok (ts[i := t])"
  unfolding kids_ok_def
proof (intro allI impI)
  fix p assume "p < length (ts[i := t])"
  then have p: "p < length ts" by simp
  have k: "map url (kids (ts[i := t]) p) = map url (kids ts p)"
    by (rule map_url_kids_update[OF assms(2,3,4)])
  show "map url (kids (ts[i := t]) p) = take (nspawned (ts[i := t] ! p)) (urls (ts[i := t] ! p))
        \<and> nspawned (ts[i := t] ! p) \<le> length (urls (ts[i := t] ! p))"
  proof (cases "p = i")
    case True
    with assms p k show ?thesis by (simp add: kids_ok_def)
  next
    case False
    with assms(1) p k show ?thesis by (simp add: kids_ok_def)
  qed
qed

lemma nspawned_pc:
  "nspawned (t\<lparr>pc := x\<rparr>) = (case x of L59 k \<Rightarrow> k | _ \<Rightarrow> length (urls t))"
  by (simp add: nspawned_def split: cpc.splits)

lemma kids_ok_pc:
  assumes "kids_ok ts" "i < length ts"
    "(case x of L59 k \<Rightarrow> k | _ \<Rightarrow> length (urls (ts ! i))) = nspawned (ts ! i)"
  shows "kids_ok (ts[i := (ts ! i)\<lparr>pc := x\<rparr>])"
proof (rule kids_ok_update[OF assms(1,2)])
  show "nspawned ((ts ! i)\<lparr>pc := x\<rparr>) \<le> length (urls ((ts ! i)\<lparr>pc := x\<rparr>))"
    using assms by (simp add: nspawned_pc kids_ok_def)
qed (use assms in \<open>simp_all add: nspawned_pc\<close>)

lemma kids_ok_snoc:
  assumes "kids_ok ts" "kids ts (length ts) = []" "us = urls (ts ! i)" "i < length ts"
    "pc (ts ! i) = L59 k" "k < length us"
  shows "kids_ok (ts[i := (ts ! i)\<lparr>pc := L59 (Suc k)\<rparr>] @ [Crawl (us ! k) dd (Some i)])"
  unfolding kids_ok_def
proof (intro allI impI)
  let ?ts' = "ts[i := (ts ! i)\<lparr>pc := L59 (Suc k)\<rparr>]"
  let ?c = "Crawl (us ! k) dd (Some i)"
  fix p assume "p < length (?ts' @ [?c])"
  then have p: "p \<le> length ts" by simp
  have k: "map url (kids ?ts' p) = map url (kids ts p)"
    by (rule map_url_kids_update[OF assms(4)]) simp_all
  have ki: "map url (kids ts i) = take k us"
    using assms by (simp add: kids_ok_def nspawned_def)
  show "map url (kids (?ts' @ [?c]) p) = take (nspawned ((?ts' @ [?c]) ! p)) (urls ((?ts' @ [?c]) ! p))
        \<and> nspawned ((?ts' @ [?c]) ! p) \<le> length (urls ((?ts' @ [?c]) ! p))"
  proof (cases "p = length ts")
    case True
    have "map url (kids ?ts' (length ts)) = []"
      using map_url_kids_update[OF assms(4), of "(ts ! i)\<lparr>pc := L59 (Suc k)\<rparr>" "length ts"] assms(2)
      by simp
    with True assms(4) show ?thesis
      by (simp add: kids_snoc nth_append Crawl_def nspawned_def)
  next
    case False
    with p have pl: "p < length ts" by simp
    show ?thesis
    proof (cases "p = i")
      case True
      with pl k ki assms show ?thesis
        by (simp add: kids_snoc nth_append Crawl_def nspawned_def take_Suc_conv_app_nth)
    next
      case False
      with pl k assms(1) show ?thesis
        by (simp add: kids_snoc nth_append Crawl_def kids_ok_def)
    qed
  qed
qed

lemma inv_kids_init: "inv_kids init"
  by (simp add: inv_kids_def kids_ok_def init_def)

lemma inv_locals_urls:
  "inv_locals s \<Longrightarrow> i < length (tasks s) \<Longrightarrow> \<not> past_fetch (pc (tasks s ! i))
   \<Longrightarrow> urls (tasks s ! i) = []"
  by (simp add: inv_locals_def)

lemma inv_kids_step:
  assumes "exec F root d a s = Some s'" "inv_kids s" "inv_locals s" "inv_struct root d s"
  shows "inv_kids s'"
  using assms(1)
proof (cases rule: exec_cases)
  case main83
  with assms(4) have "tasks s = []" by (simp add: inv_struct_def)
  with main83 show ?thesis
    by (simp add: inv_kids_def kids_ok_def kids_def Crawl_def nspawned_def)
next
  case main89
  with assms(2) show ?thesis by (simp add: inv_kids_def)
next
  case (ask i)
  with assms(2) show ?thesis
    by (simp add: inv_kids_def kids_ok_pc nspawned_def)
next
  case (exam92 v)
  with assms(2) show ?thesis by (simp add: inv_kids_def)
next
  case (exam94 v g)
  have "kids_ok ((tasks s)[Goahead v := (tasks s ! Goahead v)\<lparr>b := Some (\<not> g), pc := L41\<rparr>])"
    using assms(2) exam94
    by (intro kids_ok_update) (simp_all add: inv_kids_def nspawned_def kids_ok_def)
  with exam94 show ?thesis by (simp add: inv_kids_def)
next
  case (l41 i)
  with assms(2) show ?thesis
    by (simp add: inv_kids_def kids_ok_pc nspawned_def)
next
  case (l45 i)
  with assms(2) show ?thesis
    by (simp add: inv_kids_def kids_ok_pc nspawned_def)
next
  case (l50err i body us e)
  with assms(2) show ?thesis
    by (simp add: inv_kids_def kids_ok_pc nspawned_def)
next
  case (l50ok i body us)
  have "urls (tasks s ! i) = []"
    using l50ok by (intro inv_locals_urls[OF assms(3)]) simp_all
  then have "kids_ok ((tasks s)[i := (tasks s ! i)\<lparr>urls := elems us, pc := L59 0\<rparr>])"
    using assms(2) l50ok
    by (intro kids_ok_update) (simp_all add: inv_kids_def nspawned_def kids_ok_def)
  with l50ok show ?thesis by (simp add: inv_kids_def)
next
  case (spawn i k)
  have "kids (tasks s) (length (tasks s)) = []"
    by (rule no_kids_beyond[OF assms(4)]) simp
  with spawn assms(2) show ?thesis
    by (simp add: inv_kids_def kids_ok_snoc)
next
  case (spawn_exit i k)
  with assms(2) have "k \<le> length (urls (tasks s ! i))"
    by (auto simp: inv_kids_def kids_ok_def nspawned_def)
  with spawn_exit assms(2) show ?thesis
    by (simp add: inv_kids_def kids_ok_pc nspawned_def)
next
  case (join_exit i k)
  with assms(2) show ?thesis
    by (simp add: inv_kids_def kids_ok_pc nspawned_def)
next
  case (signal_main c)
  with assms(2) show ?thesis
    by (simp add: inv_kids_def kids_ok_pc nspawned_def)
next
  case (signal_parent c p k)
  have 1: "kids_ok ((tasks s)[c := (tasks s ! c)\<lparr>pc := Done\<rparr>])"
    using assms(2) signal_parent by (simp add: inv_kids_def kids_ok_pc nspawned_def)
  have "kids_ok ((tasks s)[c := (tasks s ! c)\<lparr>pc := Done\<rparr>,
               p := ((tasks s)[c := (tasks s ! c)\<lparr>pc := Done\<rparr>] ! p)\<lparr>pc := L63 (Suc k)\<rparr>])"
    using signal_parent by (intro kids_ok_pc[OF 1]) (simp_all add: nspawned_def)
  with signal_parent show ?thesis by (simp add: inv_kids_def)
qed

lemma winners_snoc:
  "winners (log @ [e]) = winners log @ (if snd (snd e) then [fst (snd e)] else [])"
  by (simp add: winners_def)

lemma winners_claimed: "set (winners log) \<subseteq> claimed log"
  by (auto simp: winners_def claimed_def)

lemma first_wins_distinct: "first_wins log \<Longrightarrow> distinct (winners log)"
proof (induction log rule: rev_induct)
  case Nil
  then show ?case by (simp add: winners_def)
next
  case (snoc e log)
  then show ?case
    using winners_claimed[of log] by (auto simp: first_wins_snoc winners_snoc)
qed

lemmas exec_simps = exec_def exec_main_def exec_ask_def exec_exam_def exec_local_def
  exec_signal_def init_def Crawl_def lookup_def elems_def fakeFetcher_Fetch_def fetcher_def

lemma join_ok_update:
  assumes "join_ok ts" "i < length ts" "ch t = ch (ts ! i)" "pc t \<noteq> Done" "pc (ts ! i) \<noteq> Done"
    "njoined t = njoined (ts ! i)"
  shows "join_ok (ts[i := t])"
  unfolding join_ok_def
proof (intro allI impI)
  fix p assume "p < length (ts[i := t])"
  then have p: "p < length ts" by simp
  have "joined (ts[i := t]) p = joined ts p"
    using assms by (intro joined_update_same) simp_all
  with assms(1,6) p show "joined (ts[i := t]) p = njoined (ts[i := t] ! p)"
    by (cases "p = i") (simp_all add: join_ok_def)
qed

lemma join_ok_snoc:
  assumes "join_ok ts" "joined ts (length ts) = 0" "pc t \<noteq> Done" "njoined t = 0"
  shows "join_ok (ts @ [t])"
  using assms by (auto simp: join_ok_def joined_snoc nth_append less_Suc_eq)

lemma join_done:
  assumes "join_ok ts" "c < length ts" "pc (ts ! c) = L30" "q < length ts"
  shows "joined (ts[c := (ts ! c)\<lparr>pc := Done\<rparr>]) q
         = njoined ((ts[c := (ts ! c)\<lparr>pc := Done\<rparr>]) ! q) + (if ch (ts ! c) = Some q then 1 else 0)"
proof -
  have "joined (ts[c := (ts ! c)\<lparr>pc := Done\<rparr>]) q
        = joined ts q + (if ch ((ts ! c)\<lparr>pc := Done\<rparr>) = Some q then 1 else 0)"
    using assms by (intro joined_update_done) simp_all
  moreover have "njoined ((ts[c := (ts ! c)\<lparr>pc := Done\<rparr>]) ! q) = njoined (ts ! q)"
    using assms by (cases "q = c") (simp_all add: njoined_def)
  ultimately show ?thesis using assms(1,4) by (simp add: join_ok_def)
qed

lemma inv_join_init: "inv_join init"
  by (simp add: inv_join_def join_ok_def init_def)

lemma join_bound:
  assumes "kids_ok ts" "join_ok ts" "i < length ts" "pc (ts ! i) = L63 k"
  shows "k \<le> length (urls (ts ! i))"
proof -
  have "k = joined ts i" using assms by (simp add: join_ok_def njoined_def)
  also have "\<dots> \<le> length (kids ts i)" by (rule joined_le_kids)
  also have "\<dots> = length (map url (kids ts i))" by simp
  also have "\<dots> = length (urls (ts ! i))"
    using assms by (simp add: kids_ok_def nspawned_def)
  finally show ?thesis .
qed

lemma inv_join_step:
  assumes "exec F root d a s = Some s'" "inv_join s" "inv_kids s" "inv_locals s"
    "inv_struct root d s"
  shows "inv_join s'"
  using assms(1)
proof (cases rule: exec_cases)
  case main83
  with assms(5) have "tasks s = []" by (simp add: inv_struct_def)
  with main83 show ?thesis
    by (simp add: inv_join_def join_ok_def joined_def Crawl_def njoined_def)
next
  case main89
  with assms(2) show ?thesis by (simp add: inv_join_def)
next
  case (ask i)
  with assms(2) show ?thesis
    by (simp add: inv_join_def join_ok_update njoined_def)
next
  case (exam92 v)
  with assms(2) show ?thesis by (simp add: inv_join_def)
next
  case (exam94 v g)
  with assms(2) show ?thesis
    by (simp add: inv_join_def join_ok_update njoined_def)
next
  case (l41 i)
  then have "urls (tasks s ! i) = []"
    by (intro inv_locals_urls[OF assms(4)]) simp_all
  with l41 assms(2) show ?thesis
    by (simp add: inv_join_def join_ok_update njoined_def)
next
  case (l45 i)
  then have "urls (tasks s ! i) = []"
    by (intro inv_locals_urls[OF assms(4)]) simp_all
  with l45 assms(2) show ?thesis
    by (simp add: inv_join_def join_ok_update njoined_def)
next
  case (l50err i body us e)
  then have "urls (tasks s ! i) = []"
    by (intro inv_locals_urls[OF assms(4)]) simp_all
  with l50err assms(2) show ?thesis
    by (simp add: inv_join_def join_ok_update njoined_def)
next
  case (l50ok i body us)
  with assms(2) show ?thesis
    by (simp add: inv_join_def join_ok_update njoined_def)
next
  case (spawn i k)
  let ?ts = "(tasks s)[i := (tasks s ! i)\<lparr>pc := L59 (Suc k)\<rparr>]"
  have 1: "join_ok ?ts"
    using spawn assms(2) by (simp add: inv_join_def join_ok_update njoined_def)
  have "joined (tasks s) (length (tasks s)) = 0"
    by (rule no_kids_beyond[OF assms(5)]) simp
  moreover have "joined ?ts (length (tasks s)) = joined (tasks s) (length (tasks s))"
    using spawn by (intro joined_update_same) simp_all
  ultimately have "joined ?ts (length ?ts) = 0" by simp
  from join_ok_snoc[OF 1 this] spawn show ?thesis
    by (simp add: inv_join_def Crawl_def njoined_def)
next
  case (spawn_exit i k)
  with assms(2) show ?thesis
    by (simp add: inv_join_def join_ok_update njoined_def)
next
  case (join_exit i k)
  with join_bound[of "tasks s" i k] assms(2,3) have "k = length (urls (tasks s ! i))"
    by (simp add: inv_join_def inv_kids_def)
  with join_exit assms(2) show ?thesis
    by (simp add: inv_join_def join_ok_update njoined_def)
next
  case (signal_main c)
  with assms(2) have "\<forall>q < length (tasks s).
      joined ((tasks s)[c := (tasks s ! c)\<lparr>pc := Done\<rparr>]) q
      = njoined (((tasks s)[c := (tasks s ! c)\<lparr>pc := Done\<rparr>]) ! q)"
    using join_done[of "tasks s" c] by (simp add: inv_join_def)
  with signal_main show ?thesis by (simp add: inv_join_def join_ok_def)
next
  case (signal_parent c p k)
  let ?ts = "(tasks s)[c := (tasks s ! c)\<lparr>pc := Done\<rparr>]"
  let ?ts' = "?ts[p := (tasks s ! p)\<lparr>pc := L63 (Suc k)\<rparr>]"
  have "join_ok ?ts'"
    unfolding join_ok_def
  proof (intro allI impI)
    fix q assume "q < length ?ts'"
    then have q: "q < length (tasks s)" by simp
    have "joined ?ts' q = joined ?ts q"
      using signal_parent by (intro joined_update_same) simp_all
    also have "\<dots> = njoined (?ts ! q) + (if ch (tasks s ! c) = Some q then 1 else 0)"
      using signal_parent assms(2) q by (intro join_done) (simp_all add: inv_join_def)
    also have "\<dots> = njoined (?ts' ! q)"
      using signal_parent q by (cases "q = p") (simp_all add: njoined_def)
    finally show "joined ?ts' q = njoined (?ts' ! q)" .
  qed
  with signal_parent show ?thesis by (simp add: inv_join_def)
qed

lemma all_done_joined:
  "(\<And>t. t \<in> set ts \<Longrightarrow> ch t = Some p \<Longrightarrow> pc t = Done) \<Longrightarrow> joined ts p = length (kids ts p)"
  unfolding joined_def kids_def
  by (rule arg_cong[where f = length], rule filter_cong) auto

lemma finished_kids_done:
  assumes "kids_ok ts" "join_ok ts" "p < length ts" "pc (ts ! p) = L30 \<or> pc (ts ! p) = Done"
    "c < length ts" "ch (ts ! c) = Some p"
  shows "pc (ts ! c) = Done"
proof -
  have "joined ts p = length (urls (ts ! p))"
    using assms(2,3,4) by (auto simp: join_ok_def njoined_def)
  moreover have "length (map url (kids ts p)) = length (urls (ts ! p))"
    using assms(1,3,4) by (auto simp: kids_ok_def nspawned_def)
  ultimately have "joined ts p = length (kids ts p)" by simp
  from kids_all_done[OF this, of "ts ! c"] assms(5,6) show ?thesis by simp
qed

lemma inv_order_init: "inv_order init"
  by (simp add: inv_order_def init_def)

lemma inv_order_signal:
  assumes "inv_order s" "inv_sig s" "inv_kids s" "inv_join s"
    "c < length (tasks s)" "pc (tasks s ! c) = L30"
    "length ts' = length (tasks s)" "\<forall>i < length (tasks s). ch (ts' ! i) = ch (tasks s ! i)"
  shows "inv_order (s\<lparr>tasks := ts', siglog := siglog s @ [c]\<rparr>)"
  unfolding inv_order_def
proof (intro allI impI)
  fix k c'
  assume k: "k < length (siglog (s\<lparr>tasks := ts', siglog := siglog s @ [c]\<rparr>))"
    and c': "c' < length (tasks (s\<lparr>tasks := ts', siglog := siglog s @ [c]\<rparr>))"
    and p: "ch (tasks (s\<lparr>tasks := ts', siglog := siglog s @ [c]\<rparr>) ! c')
            = Some (siglog (s\<lparr>tasks := ts', siglog := siglog s @ [c]\<rparr>) ! k)"
  from c' assms(7) have c'l: "c' < length (tasks s)" by simp
  with assms(8) p have p': "ch (tasks s ! c') = Some ((siglog s @ [c]) ! k)" by simp
  show "c' \<in> set (take k (siglog (s\<lparr>tasks := ts', siglog := siglog s @ [c]\<rparr>)))"
  proof (cases "k < length (siglog s)")
    case True
    with p' have "ch (tasks s ! c') = Some (siglog s ! k)" by (simp add: nth_append)
    with assms(1) True c'l have "c' \<in> set (take k (siglog s))"
      by (simp add: inv_order_def)
    with True show ?thesis by simp
  next
    case False
    with k have keq: "k = length (siglog s)" by simp
    with p' have "ch (tasks s ! c') = Some c" by simp
    from finished_kids_done[OF _ _ assms(5) _ c'l this] assms(3,4,6)
    have "pc (tasks s ! c') = Done" by (simp add: inv_kids_def inv_join_def)
    with assms(2) c'l have "c' \<in> set (siglog s)" by (simp add: inv_sig_def)
    with keq show ?thesis by simp
  qed
qed

lemma inv_order_step:
  assumes "exec F root d a s = Some s'" "inv_order s" "inv_sig s" "inv_kids s" "inv_join s"
  shows "inv_order s'"
  using assms(1)
proof (cases rule: exec_cases)
  case main83
  with assms(2,3) show ?thesis
    by (auto simp: inv_order_def inv_sig_def nth_append Crawl_def)
next
  case (spawn i k)
  have "\<And>j. j < length (siglog s) \<Longrightarrow> siglog s ! j \<noteq> i"
  proof
    fix j assume "j < length (siglog s)" "siglog s ! j = i"
    then have "i \<in> set (siglog s)" by (auto simp: in_set_conv_nth)
    with assms(3) spawn show False by (simp add: inv_sig_def)
  qed
  with spawn assms(2) show ?thesis
    by (auto simp: inv_order_def nth_append nth_list_update Crawl_def)
next
  case (signal_main c)
  have "inv_order (s\<lparr>tasks := (tasks s)[c := (tasks s ! c)\<lparr>pc := Done\<rparr>],
                    siglog := siglog s @ [c]\<rparr>)"
    using signal_main assms(2-)
    by (intro inv_order_signal) (simp_all add: nth_list_update)
  with signal_main show ?thesis by (simp add: inv_order_def)
next
  case (signal_parent c p k)
  have "inv_order (s\<lparr>tasks := (tasks s)[c := (tasks s ! c)\<lparr>pc := Done\<rparr>,
                                     p := (tasks s ! p)\<lparr>pc := L63 (Suc k)\<rparr>],
                    siglog := siglog s @ [c]\<rparr>)"
    using signal_parent assms(2-)
    by (intro inv_order_signal) (simp_all add: nth_list_update)
  with signal_parent show ?thesis by (simp add: inv_order_def)
qed (use assms(2) in \<open>auto simp: inv_order_def nth_list_update split: if_splits\<close>)

lemma inv_init: "inv F root d init"
  by (simp add: inv_def inv_struct_init inv_exam_init inv_locals_init inv_log_init inv_emap_init
      inv_fetch_init inv_once_init inv_out_init inv_sig_init inv_depth_init inv_kids_init
      inv_join_init inv_order_init)

lemma inv_step:
  assumes "inv F root d s" "exec F root d a s = Some s'"
  shows "inv F root d s'"
  using assms
  unfolding inv_def
  by (intro conjI)
     (blast intro: inv_struct_step inv_exam_step inv_locals_step inv_log_step inv_emap_step
        inv_fetch_step inv_once_step inv_out_step inv_sig_step inv_depth_step inv_kids_step
        inv_join_step inv_order_step)+

lemma run_inv:
  assumes "run F root d as init = Some s"
  shows "inv F root d s"
  by (rule run_invariant[OF assms, where P = "inv F root d"]) (auto intro: inv_init inv_step)

lemma all_done:
  assumes "inv F root d s" "mainpc s = MExit" "i < length (tasks s)"
  shows "pc (tasks s ! i) = Done"
  using assms(3)
proof (induction i rule: less_induct)
  case (less i)
  from assms(1) have st: "inv_struct root d s" and k: "kids_ok (tasks s)" and j: "join_ok (tasks s)"
    by (simp_all add: inv_def inv_kids_def inv_join_def)
  show ?case
  proof (cases "ch (tasks s ! i)")
    case None
    with st less.prems have "i = 0" by (auto simp: inv_struct_def split: option.splits)
    with st assms(2) show ?thesis by (simp add: inv_struct_def)
  next
    case (Some p)
    from parent_less[OF st less.prems Some] have p: "p < i" .
    with less.prems have pl: "p < length (tasks s)" by simp
    from less.IH[OF p pl] have "pc (tasks s ! p) = Done" .
    from finished_kids_done[OF k j pl _ less.prems Some] this show ?thesis by simp
  qed
qed

lemma claimed_winner:
  "first_wins log \<Longrightarrow> u \<in> claimed log \<Longrightarrow> \<exists>j. (j, u, True) \<in> set log"
proof (induction log rule: rev_induct)
  case Nil
  then show ?case by (simp add: claimed_Nil)
next
  case (snoc e log)
  show ?case
  proof (cases "u \<in> claimed log")
    case True
    with snoc show ?thesis by (auto simp: first_wins_snoc)
  next
    case False
    with snoc.prems have "fst (snd e) = u" "snd (snd e)"
      by (auto simp: first_wins_snoc claimed_snoc)
    then have "e = (fst e, u, True)" by (cases e) auto
    then have "(fst e, u, True) \<in> set (log @ [e])" by simp
    then show ?thesis by blast
  qed
qed

lemma winner_exists:
  assumes "inv F root d s" "i < length (tasks s)" "b (tasks s ! i) = Some a"
  shows "\<exists>j < length (tasks s). url (tasks s ! j) = url (tasks s ! i) \<and> b (tasks s ! j) = Some True"
proof -
  from assms(1) have l: "inv_log s" and e: "inv_emap s" by (simp_all add: inv_def)
  from inv_log_b[OF l assms(2,3)] have "url (tasks s ! i) \<in> claimed (claimlog s)"
    by (force simp: claimed_def)
  moreover from e have "first_wins (claimlog s)" by (simp add: inv_emap_def)
  ultimately obtain j where "(j, url (tasks s ! i), True) \<in> set (claimlog s)"
    using claimed_winner by blast
  with l show ?thesis by (force simp: inv_log_def)
qed

lemma kid_url:
  assumes "kids_ok ts" "c < length ts" "ch (ts ! c) = Some p" "p < length ts"
  shows "url (ts ! c) \<in> set (urls (ts ! p))"
proof -
  from assms(2,3) have "ts ! c \<in> set (kids ts p)" by (simp add: kids_def)
  then have "url (ts ! c) \<in> set (map url (kids ts p))" by simp
  also have "map url (kids ts p) = take (nspawned (ts ! p)) (urls (ts ! p))"
    using assms(1,4) by (simp add: kids_ok_def)
  finally show ?thesis by (rule in_set_takeD)
qed

lemma parent_facts:
  assumes "inv F root d s" "c < length (tasks s)" "ch (tasks s ! c) = Some p"
  shows "p < c" "url (tasks s ! c) \<in> set (urls (tasks s ! p))"
    "b (tasks s ! p) = Some True" "0 < depth (tasks s ! p)"
    "(p, url (tasks s ! p)) \<in> set (fetchlog s)"
    "depth (tasks s ! c) = depth (tasks s ! p) - 1"
proof -
  from assms(1) have st: "inv_struct root d s" and k: "kids_ok (tasks s)"
    and lo: "inv_locals s" and f: "inv_fetch s" and dp: "inv_depth s"
    by (simp_all add: inv_def inv_kids_def)
  show p: "p < c" by (rule parent_less[OF st assms(2,3)])
  with assms(2) have pl: "p < length (tasks s)" by simp
  show u: "url (tasks s ! c) \<in> set (urls (tasks s ! p))"
    by (rule kid_url[OF k assms(2,3) pl])
  then have ne: "urls (tasks s ! p) \<noteq> []" by auto
  with lo pl show bd: "b (tasks s ! p) = Some True" "0 < depth (tasks s ! p)"
    by (simp_all add: inv_locals_def)
  from ne lo pl have "past_fetch (pc (tasks s ! p))"
    by (auto simp: inv_locals_def)
  with f pl bd show "(p, url (tasks s ! p)) \<in> set (fetchlog s)"
    by (simp add: inv_fetch_def)
  from dp assms(2,3) show "depth (tasks s ! c) = depth (tasks s ! p) - 1"
    by (auto simp: inv_depth_def split: option.splits)
qed

lemma weight_Crawl: "weight F (Crawl u dd c) = cost F (nat dd) u"
proof (cases "dd \<le> 0")
  case True
  then show ?thesis by (simp add: weight_def Crawl_def w45_def)
next
  case False
  then have "nat dd = Suc (nat (dd - 1))" by simp
  with False show ?thesis
    by (simp add: weight_def Crawl_def w45_def w50_def spawn_cost_def del: One_nat_def)
qed

lemma sum_update:
  "i < length ts \<Longrightarrow>
   sum_list (map f (ts[i := t])) + f (ts ! i) = sum_list (map f ts) + (f t :: nat)"
proof (induction ts arbitrary: i)
  case Nil
  then show ?case by simp
next
  case (Cons x xs)
  show ?case
  proof (cases i)
    case 0
    then show ?thesis by simp
  next
    case (Suc j)
    with Cons.prems have "j < length xs" by simp
    from Cons.IH[OF this] Suc show ?thesis by simp
  qed
qed

lemma w45_pos: "2 \<le> w45 F u dd"
  by (simp add: w45_def w50_def)

lemma step_decreases:
  assumes "exec F root d a s = Some s'"
  shows "steps_left F root d s' < steps_left F root d s"
  using assms
proof (cases rule: exec_cases)
  case main83
  then show ?thesis by (simp add: steps_left_def weight_Crawl)
next
  case main89
  then show ?thesis by (simp add: steps_left_def)
next
  case (ask i)
  with sum_update[of i "tasks s" "weight F" "(tasks s ! i)\<lparr>pc := L39\<rparr>"]
  show ?thesis by (simp add: steps_left_def weight_def)
next
  case (exam92 v)
  then show ?thesis by (simp add: steps_left_def)
next
  case (exam94 v g)
  with sum_update[of "Goahead v" "tasks s" "weight F"
      "(tasks s ! Goahead v)\<lparr>b := Some (\<not> g), pc := L41\<rparr>"]
  show ?thesis by (simp add: steps_left_def weight_def)
next
  case (l41 i)
  show ?thesis
  proof (cases "b (tasks s ! i) = Some True")
    case True
    with l41 sum_update[of i "tasks s" "weight F" "(tasks s ! i)\<lparr>pc := L45\<rparr>"]
    show ?thesis by (simp add: steps_left_def weight_def)
  next
    case False
    with l41 sum_update[of i "tasks s" "weight F" "(tasks s ! i)\<lparr>pc := L30\<rparr>"]
      w45_pos[of F "url (tasks s ! i)" "depth (tasks s ! i)"]
    show ?thesis by (simp add: steps_left_def weight_def)
  qed
next
  case (l45 i)
  show ?thesis
  proof (cases "depth (tasks s ! i) \<le> 0")
    case True
    with l45 sum_update[of i "tasks s" "weight F" "(tasks s ! i)\<lparr>pc := L30\<rparr>"]
    show ?thesis by (simp add: steps_left_def weight_def w45_def)
  next
    case False
    with l45 sum_update[of i "tasks s" "weight F" "(tasks s ! i)\<lparr>pc := L50\<rparr>"]
    show ?thesis by (simp add: steps_left_def weight_def w45_def)
  qed
next
  case (l50err i body us e)
  with sum_update[of i "tasks s" "weight F" "(tasks s ! i)\<lparr>pc := L30\<rparr>"]
  show ?thesis by (simp add: steps_left_def weight_def w50_def)
next
  case (l50ok i body us)
  with sum_update[of i "tasks s" "weight F" "(tasks s ! i)\<lparr>urls := elems us, pc := L59 0\<rparr>"]
  show ?thesis by (simp add: steps_left_def weight_def w50_def)
next
  case (spawn i k)
  have d: "drop k (urls (tasks s ! i)) = urls (tasks s ! i) ! k # drop (Suc k) (urls (tasks s ! i))"
    using spawn by (simp add: Cons_nth_drop_Suc)
  have "weight F (tasks s ! i)
        = Suc (cost F (nat (depth (tasks s ! i) - 1)) (urls (tasks s ! i) ! k))
          + weight F ((tasks s ! i)\<lparr>pc := L59 (Suc k)\<rparr>)"
    using spawn d by (simp add: weight_def spawn_cost_def)
  with spawn sum_update[of i "tasks s" "weight F" "(tasks s ! i)\<lparr>pc := L59 (Suc k)\<rparr>"]
  show ?thesis by (simp add: steps_left_def weight_Crawl)
next
  case (spawn_exit i k)
  with sum_update[of i "tasks s" "weight F" "(tasks s ! i)\<lparr>pc := L63 0\<rparr>"]
  show ?thesis by (simp add: steps_left_def weight_def)
next
  case (join_exit i k)
  with sum_update[of i "tasks s" "weight F" "(tasks s ! i)\<lparr>pc := L30\<rparr>"]
  show ?thesis by (simp add: steps_left_def weight_def)
next
  case (signal_main c)
  with sum_update[of c "tasks s" "weight F" "(tasks s ! c)\<lparr>pc := Done\<rparr>"]
  show ?thesis by (simp add: steps_left_def weight_def)
next
  case (signal_parent c p k)
  let ?ts = "(tasks s)[c := (tasks s ! c)\<lparr>pc := Done\<rparr>]"
  from signal_parent
    sum_update[of c "tasks s" "weight F" "(tasks s ! c)\<lparr>pc := Done\<rparr>"]
    sum_update[of p ?ts "weight F" "(tasks s ! p)\<lparr>pc := L63 (Suc k)\<rparr>"]
  show ?thesis by (simp add: steps_left_def weight_def)
qed

lemma run_length:
  "run F root d as s0 = Some s \<Longrightarrow> length as + steps_left F root d s \<le> steps_left F root d s0"
proof (induction as arbitrary: s0)
  case Nil
  then show ?case by simp
next
  case (Cons a as)
  then obtain s1 where 1: "exec F root d a s0 = Some s1" and 2: "run F root d as s1 = Some s"
    by (auto split: option.splits)
  from Cons.IH[OF 2] step_decreases[OF 1] show ?case by simp
qed

lemma en_exam:
  assumes "inv_exam s" "mainpc s \<noteq> MExit" "pending (exam s) = Some v"
  shows "exec F root d Exam s \<noteq> None"
proof (cases "exam s")
  case (E92 w)
  with assms(2) show ?thesis by (simp add: exec_def exec_exam_def)
next
  case (E94 w g)
  with assms(1) have "Goahead w < length (tasks s)" "pc (tasks s ! Goahead w) = L39"
    by (simp_all add: inv_exam_def)
  with E94 assms(2) show ?thesis by (simp add: exec_def exec_exam_def)
qed (use assms(3) in simp_all)

lemma en_local:
  assumes "mainpc s \<noteq> MExit" "i < length (tasks s)"
    "pc (tasks s ! i) = L41 \<or> pc (tasks s ! i) = L45 \<or> pc (tasks s ! i) = L50
     \<or> (\<exists>k. pc (tasks s ! i) = L59 k)
     \<or> (\<exists>k. pc (tasks s ! i) = L63 k \<and> \<not> k < length (urls (tasks s ! i)))"
  shows "exec F root d (Local i) s \<noteq> None"
  using assms
  by (auto simp: exec_def exec_local_def Let_def split: prod.splits option.splits)

lemma en_signal:
  assumes "mainpc s \<noteq> MExit" "c < length (tasks s)" "pc (tasks s ! c) = L30"
    "ch (tasks s ! c) = Some p" "p < length (tasks s)" "pc (tasks s ! p) = L63 k"
    "k < length (urls (tasks s ! p))"
  shows "exec F root d (Signal c) s \<noteq> None"
  using assms by (simp add: exec_def exec_signal_def)

lemma en_signal_main:
  assumes "mainpc s = M99" "c < length (tasks s)" "pc (tasks s ! c) = L30"
    "ch (tasks s ! c) = None"
  shows "exec F root d (Signal c) s \<noteq> None"
  using assms by (simp add: exec_def exec_signal_def)

lemma unjoined_kid:
  assumes "joined ts p < length (kids ts p)"
  shows "\<exists>c < length ts. ch (ts ! c) = Some p \<and> pc (ts ! c) \<noteq> Done"
proof (rule ccontr)
  assume "\<not> ?thesis"
  then have "\<And>t. t \<in> set ts \<Longrightarrow> ch t = Some p \<Longrightarrow> pc t = Done"
    by (auto simp: in_set_conv_nth)
  from all_done_joined[OF this] assms show False by simp
qed

lemma progress:
  assumes "inv F root d s" "mainpc s \<noteq> MExit"
  shows "\<exists>a. exec F root d a s \<noteq> None"
proof (cases "mainpc s = M83 \<or> mainpc s = M89")
  case True
  then have "exec F root d Main s \<noteq> None"
    by (auto simp: exec_def exec_main_def)
  then show ?thesis ..
next
  case False
  with assms(2) have m: "mainpc s = M99" by (cases "mainpc s") auto
  from assms(1) have st: "inv_struct root d s" and ex: "inv_exam s" and lo: "inv_locals s"
    and k: "kids_ok (tasks s)" and j: "join_ok (tasks s)"
    by (simp_all add: inv_def inv_kids_def inv_join_def)
  let ?n = "length (tasks s)"
  let ?P = "\<lambda>i. i < ?n \<and> pc (tasks s ! i) \<noteq> Done"
  from st m have "?P 0" by (auto simp: inv_struct_def)
  moreover have "\<forall>y. ?P y \<longrightarrow> y \<le> ?n" by simp
  ultimately obtain i where i: "?P i" and mx: "\<forall>y. ?P y \<longrightarrow> y \<le> i"
    using Nat.ex_has_greatest_nat[of ?P 0 ?n] by blast
  from i have il: "i < ?n" and nd: "pc (tasks s ! i) \<noteq> Done" by simp_all
  from st m have e0: "exam s \<noteq> E0" by (simp add: inv_struct_def)
  show ?thesis
  proof (cases "pc (tasks s ! i)")
    case L38
    show ?thesis
    proof (cases "exam s")
      case E0
      with e0 show ?thesis by simp
    next
      case E91
      with L38 il assms(2) have "exec F root d (Ask i) s \<noteq> None"
        by (simp add: exec_def exec_ask_def)
      then show ?thesis ..
    next
      case (E92 v)
      then have "pending (exam s) = Some v" by simp
      from en_exam[OF ex assms(2) this] show ?thesis ..
    next
      case (E94 v g)
      then have "pending (exam s) = Some v" by simp
      from en_exam[OF ex assms(2) this] show ?thesis ..
    qed
  next
    case L39
    with ex il have "asker (exam s) = Some i" by (auto simp: inv_exam_def)
    then obtain v where "pending (exam s) = Some v" by (cases "exam s") auto
    from en_exam[OF ex assms(2) this] show ?thesis ..
  next
    case L41
    with en_local[OF assms(2) il] show ?thesis by blast
  next
    case L45
    with en_local[OF assms(2) il] show ?thesis by blast
  next
    case L50
    with en_local[OF assms(2) il] show ?thesis by blast
  next
    case (L59 x)
    with en_local[OF assms(2) il] show ?thesis by blast
  next
    case (L63 x)
    show ?thesis
    proof (cases "x < length (urls (tasks s ! i))")
      case False
      with L63 en_local[OF assms(2) il] show ?thesis by blast
    next
      case True
      have "joined (tasks s) i = x" using j il L63 by (simp add: join_ok_def njoined_def)
      moreover have "length (map url (kids (tasks s) i)) = length (urls (tasks s ! i))"
        using k il L63 by (simp add: kids_ok_def nspawned_def)
      ultimately have "joined (tasks s) i < length (kids (tasks s) i)"
        using True by simp
      from unjoined_kid[OF this] obtain c where c: "c < ?n" "ch (tasks s ! c) = Some i"
        "pc (tasks s ! c) \<noteq> Done" by blast
      from parent_less[OF st c(1,2)] have "i < c" .
      moreover from mx c have "c \<le> i" by simp
      ultimately show ?thesis by simp
    qed
  next
    case L30
    show ?thesis
    proof (cases "ch (tasks s ! i)")
      case None
      from en_signal_main[OF m il L30 None] show ?thesis ..
    next
      case (Some p)
      from parent_less[OF st il Some] il have pl: "p < ?n" by simp
      from kid_url[OF k il Some pl] have ne: "urls (tasks s ! p) \<noteq> []" by auto
      with lo pl have pf: "past_fetch (pc (tasks s ! p))" by (auto simp: inv_locals_def)
      show ?thesis
      proof (cases "pc (tasks s ! p)")
        case (L59 x)
        with en_local[OF assms(2) pl] show ?thesis by blast
      next
        case (L63 x)
        show ?thesis
        proof (cases "x < length (urls (tasks s ! p))")
          case True
          from en_signal[OF assms(2) il L30 Some pl L63 True] show ?thesis ..
        next
          case False
          with L63 en_local[OF assms(2) pl] show ?thesis by blast
        qed
      next
        case L30
        from finished_kids_done[OF k j pl _ il Some] L30 nd show ?thesis by simp
      next
        case Done
        from finished_kids_done[OF k j pl _ il Some] Done nd show ?thesis by simp
      qed (use pf in simp_all)
    qed
  next
    case Done
    with nd show ?thesis by simp
  qed
qed

lemma pending_running:
  assumes "inv F root d s" "pending (exam s) = Some v"
  shows "mainpc s \<noteq> MExit"
proof
  assume m: "mainpc s = MExit"
  from assms have "Goahead v < length (tasks s)" "pc (tasks s ! Goahead v) = L39"
    by (simp_all add: inv_def inv_exam_def)
  with all_done[OF assms(1) m, of "Goahead v"] show False by simp
qed


lemma depth_le:
  assumes "inv F root d s" "i < length (tasks s)"
  shows "depth (tasks s ! i) \<le> d"
  using assms(2)
proof (induction i rule: less_induct)
  case (less i)
  from assms(1) have st: "inv_struct root d s" by (simp add: inv_def)
  show ?case
  proof (cases "ch (tasks s ! i)")
    case None
    with st less.prems have "i = 0" by (auto simp: inv_struct_def split: option.splits)
    moreover from st less.prems have "mainpc s \<noteq> M83" by (auto simp: inv_struct_def)
    ultimately show ?thesis using st by (simp add: inv_struct_def)
  next
    case (Some p)
    from parent_facts(1,6)[OF assms(1) less.prems Some]
    have p: "p < i" and dp: "depth (tasks s ! i) = depth (tasks s ! p) - 1" .
    from less.IH[OF p] p less.prems have "depth (tasks s ! p) \<le> d" by simp
    with dp show ?thesis by simp
  qed
qed

lemma gen_depth:
  assumes "inv F root d s" "generation (tasks s) i g"
  shows "depth (tasks s ! i) = d - int g"
  using assms(2)
proof (induction rule: generation.induct)
  case (gen_root i)
  from assms(1) have st: "inv_struct root d s" by (simp add: inv_def)
  with gen_root have "i = 0" by (auto simp: inv_struct_def split: option.splits)
  moreover from st gen_root have "mainpc s \<noteq> M83" by (auto simp: inv_struct_def)
  ultimately show ?case using st by (simp add: inv_struct_def)
next
  case (gen_child i p g)
  from parent_facts(6)[OF assms(1) gen_child(1,2)] gen_child(4) show ?case by simp
qed

lemma gen_exists:
  assumes "inv F root d s" "i < length (tasks s)"
  shows "\<exists>g. generation (tasks s) i g"
  using assms(2)
proof (induction i rule: less_induct)
  case (less i)
  show ?case
  proof (cases "ch (tasks s ! i)")
    case None
    with less.prems show ?thesis by (blast intro: gen_root)
  next
    case (Some p)
    from parent_facts(1)[OF assms(1) less.prems Some] have p: "p < i" .
    with less.IH[OF p] less.prems obtain g where "generation (tasks s) p g" by auto
    with less.prems Some show ?thesis by (blast intro: gen_child)
  qed
qed

lemma single_task:
  assumes "inv F root d s" "d \<le> 0"
  shows "length (tasks s) \<le> 1"
proof (rule ccontr)
  assume "\<not> length (tasks s) \<le> 1"
  then have l: "1 < length (tasks s)" by simp
  from assms(1) have st: "inv_struct root d s" by (simp add: inv_def)
  with l obtain p where p: "ch (tasks s ! 1) = Some p"
    by (cases "ch (tasks s ! 1)") (auto simp: inv_struct_def split: option.splits)
  from parent_facts(1,4)[OF assms(1) l p] have "p < 1" "0 < depth (tasks s ! p)" .
  moreover from depth_le[OF assms(1), of p] l \<open>p < 1\<close> have "depth (tasks s ! p) \<le> d" by simp
  ultimately show False using assms(2) by simp
qed

section \<open>The fakeFetcher\<close>

text \<open>
  C10: \<open>fakeFetcher.Fetch\<close> is a function of the map and the url; it returns the canned
  body and link list with a nil error when the url is a key of the map, and an empty
  body, a nil link list and the error \<open>not found: url\<close> when it is not; so the error is
  nil exactly for the keys of the map.
\<close>

theorem C10_fakeFetcher_Fetch:
  "(\<forall>body us. f u = Some (FakeResult body us) \<longrightarrow> fakeFetcher_Fetch f u = (body, us, None))
   \<and> (u \<notin> dom f \<longrightarrow> fakeFetcher_Fetch f u = ('''', None, Some (''not found: '' @ u)))
   \<and> (snd (snd (fakeFetcher_Fetch f u)) = None \<longleftrightarrow> u \<in> dom f)"
  by (auto simp: fakeFetcher_Fetch_def dom_def split: option.splits fakeResult.splits)

theorem C10_fakeFetcher_Fetch_witness:
  "fetcher ''http://golang.org/pkg/os/'' =
     Some (FakeResult ''Package os'' (Some [''http://golang.org/'', ''http://golang.org/pkg/'']))
   \<and> fakeFetcher_Fetch fetcher ''http://golang.org/pkg/os/'' =
       (''Package os'', Some [''http://golang.org/'', ''http://golang.org/pkg/''], None)
   \<and> ''http://golang.org/cmd/'' \<notin> dom fetcher
   \<and> fakeFetcher_Fetch fetcher ''http://golang.org/cmd/'' =
       ('''', None, Some ''not found: http://golang.org/cmd/'')"
  using C10_fakeFetcher_Fetch [of fetcher "''http://golang.org/pkg/os/''"]
        C10_fakeFetcher_Fetch [of fetcher "''http://golang.org/cmd/''"]
  by (simp add: fetcher_def dom_def)

section \<open>Uniqueness of fetches\<close>

text \<open>
  C1: in every run, under every schedule, \<open>Fetch\<close> is called at most once for every url:
  the urls of the calls are pairwise distinct. Every call is made by a goroutine that the
  examine goroutine answered \<open>true\<close> for that url, and the urls it answered \<open>true\<close> for are
  pairwise distinct.
\<close>

theorem C1_fetch_at_most_once:
  assumes "run F root d as init = Some s"
  shows "distinct (map snd (fetchlog s))
    \<and> (\<forall>e \<in> set (fetchlog s). (fst e, snd e, True) \<in> set (claimlog s))
    \<and> distinct (winners (claimlog s))"
proof -
  from run_inv[OF assms] have i: "inv_once s" "inv_fetch s" "inv_log s" "inv_emap s"
    by (simp_all add: inv_def)
  have "\<forall>e \<in> set (fetchlog s). (fst e, snd e, True) \<in> set (claimlog s)"
  proof
    fix e assume "e \<in> set (fetchlog s)"
    with i(2) have "fst e < length (tasks s)" "url (tasks s ! fst e) = snd e"
      "b (tasks s ! fst e) = Some True"
      by (auto simp: inv_fetch_def)
    with inv_log_b[OF i(3), of "fst e" True] show "(fst e, snd e, True) \<in> set (claimlog s)"
      by simp
  qed
  moreover from i(4) have "distinct (winners (claimlog s))"
    by (simp add: inv_emap_def first_wins_distinct)
  ultimately show ?thesis using i(1) by (simp add: inv_once_def)
qed

theorem C1_fetch_at_most_once_witness:
  "\<exists>s. run (fakeFetcher_Fetch fetcher) ''http://golang.org/'' 4
          [Main, Main, Ask 0, Exam, Exam, Local 0, Local 0, Local 0] init = Some s
     \<and> fetchlog s = [(0, ''http://golang.org/'')]
     \<and> claimlog s = [(0, ''http://golang.org/'', True)]
     \<and> distinct (map snd (fetchlog s))
     \<and> distinct (winners (claimlog s))"
proof -
  obtain s where r: "run (fakeFetcher_Fetch fetcher) ''http://golang.org/'' 4
          [Main, Main, Ask 0, Exam, Exam, Local 0, Local 0, Local 0] init = Some s"
    and l: "fetchlog s = [(0, ''http://golang.org/'')]"
      "claimlog s = [(0, ''http://golang.org/'', True)]"
    by (simp add: exec_simps)
  from C1_fetch_at_most_once[OF r] r l show ?thesis by simp
qed

section \<open>The examine goroutine\<close>

text \<open>
  C2: in every run the examine goroutine answers \<open>true\<close> to a request exactly when no
  earlier answer was for the same url, so \<open>true\<close> goes to the first request of a url and
  \<open>false\<close> to every later one; \<open>emap\<close> holds exactly the urls answered so far and the one
  being answered, so the first request inserts the url. The operation has no failing
  branch: with a request in hand, lines 92 and 93 always run, and the answer is always
  delivered, because the requester waits on its channel.
\<close>

theorem C2_claim_first_wins:
  assumes "run F root d as init = Some s"
  shows "(\<forall>k < length (claimlog s).
            snd (snd (claimlog s ! k))
            = (fst (snd (claimlog s ! k)) \<notin> claimed (take k (claimlog s))))
    \<and> (\<forall>u. lookup (emap s) u \<longleftrightarrow> u \<in> claimed (claimlog s) \<or> answering (exam s) = Some u)
    \<and> (\<forall>v. exam s = E92 v \<longrightarrow>
          exec F root d Exam s
          = Some (s\<lparr>exam := E94 v (lookup (emap s) (Url v)), emap := (emap s)(Url v \<mapsto> True)\<rparr>))
    \<and> (\<forall>v g. exam s = E94 v g \<longrightarrow>
          g = (Url v \<in> claimed (claimlog s)) \<and> lookup (emap s) (Url v)
          \<and> exec F root d Exam s \<noteq> None)"
proof -
  from run_inv[OF assms] have i: "inv F root d s" .
  then have e: "inv_emap s" and x: "inv_exam s" by (simp_all add: inv_def)
  have 1: "\<forall>k < length (claimlog s).
            snd (snd (claimlog s ! k))
            = (fst (snd (claimlog s ! k)) \<notin> claimed (take k (claimlog s)))"
    using e by (simp add: inv_emap_def first_wins_def)
  have 2: "\<forall>u. lookup (emap s) u \<longleftrightarrow> u \<in> claimed (claimlog s) \<or> answering (exam s) = Some u"
    using e by (simp add: inv_emap_def)
  have 3: "\<forall>v. exam s = E92 v \<longrightarrow>
          exec F root d Exam s
          = Some (s\<lparr>exam := E94 v (lookup (emap s) (Url v)), emap := (emap s)(Url v \<mapsto> True)\<rparr>)"
  proof (intro allI impI)
    fix v assume v: "exam s = E92 v"
    then have "pending (exam s) = Some v" by simp
    from pending_running[OF i this] v
    show "exec F root d Exam s
          = Some (s\<lparr>exam := E94 v (lookup (emap s) (Url v)), emap := (emap s)(Url v \<mapsto> True)\<rparr>)"
      by (simp add: exec_def exec_exam_def)
  qed
  have 4: "\<forall>v g. exam s = E94 v g \<longrightarrow>
          g = (Url v \<in> claimed (claimlog s)) \<and> lookup (emap s) (Url v)
          \<and> exec F root d Exam s \<noteq> None"
  proof (intro allI impI)
    fix v g assume v: "exam s = E94 v g"
    then have p: "pending (exam s) = Some v" by simp
    from en_exam[OF x pending_running[OF i p] p] have "exec F root d Exam s \<noteq> None" .
    moreover from e v have "g = (Url v \<in> claimed (claimlog s))" "lookup (emap s) (Url v)"
      by (simp_all add: inv_emap_def)
    ultimately show "g = (Url v \<in> claimed (claimlog s)) \<and> lookup (emap s) (Url v)
          \<and> exec F root d Exam s \<noteq> None" by simp
  qed
  from 1 2 3 4 show ?thesis by blast
qed

theorem C2_claim_first_wins_witness:
  "\<exists>s. run (fakeFetcher_Fetch fetcher) ''http://golang.org/'' 2
          [Main, Main, Ask 0, Exam, Exam, Local 0, Local 0, Local 0, Local 0, Local 0,
           Ask 1, Exam, Exam, Local 1, Local 1, Local 1, Local 1, Ask 3, Exam, Exam] init = Some s
     \<and> claimlog s = [(0, ''http://golang.org/'', True), (1, ''http://golang.org/pkg/'', True),
                      (3, ''http://golang.org/'', False)]
     \<and> lookup (emap s) ''http://golang.org/'' \<and> lookup (emap s) ''http://golang.org/pkg/''
     \<and> \<not> lookup (emap s) ''http://golang.org/cmd/''
     \<and> snd (snd (claimlog s ! 2))
         = (fst (snd (claimlog s ! 2)) \<notin> claimed (take 2 (claimlog s)))"
proof -
  obtain s where r: "run (fakeFetcher_Fetch fetcher) ''http://golang.org/'' 2
          [Main, Main, Ask 0, Exam, Exam, Local 0, Local 0, Local 0, Local 0, Local 0,
           Ask 1, Exam, Exam, Local 1, Local 1, Local 1, Local 1, Ask 3, Exam, Exam] init = Some s"
    and l: "claimlog s = [(0, ''http://golang.org/'', True), (1, ''http://golang.org/pkg/'', True),
                      (3, ''http://golang.org/'', False)]"
      "lookup (emap s) ''http://golang.org/''" "lookup (emap s) ''http://golang.org/pkg/''"
      "\<not> lookup (emap s) ''http://golang.org/cmd/''"
    by (simp add: exec_simps)
  from C2_claim_first_wins[OF r] have
    "\<forall>k < length (claimlog s).
            snd (snd (claimlog s ! k))
            = (fst (snd (claimlog s ! k)) \<notin> claimed (take k (claimlog s)))" by blast
  moreover have "2 < length (claimlog s)" using l(1) by simp
  ultimately have "snd (snd (claimlog s ! 2))
         = (fst (snd (claimlog s ! 2)) \<notin> claimed (take 2 (claimlog s)))"
    by blast
  with r l show ?thesis by blast
qed

section \<open>Completion signals\<close>



end
